theory Spec2Isabelle
  imports Complex_Main "HOL-Library.Word" "HOL-Library.Sublist"
begin

section \<open>JavaScript strings\<close>

text \<open>
  A JavaScript string is a sequence of 16-bit UTF-16 code units. \<open>length\<close>, \<open>charAt\<close>,
  \<open>substr\<close> and \<open>indexOf\<close> count code units, so a character outside the basic plane
  takes two positions: a high surrogate (D800..DBFF) followed by a low surrogate
  (DC00..DFFF). \<open>js\<close> turns an ASCII literal into such a string.
\<close>

type_synonym code_unit = "16 word"
type_synonym jsstring = "code_unit list"

definition js :: "string \<Rightarrow> jsstring" where
  "js s = map of_char s"

definition isHighSurrogate :: "code_unit \<Rightarrow> bool" where
  "isHighSurrogate c \<longleftrightarrow> 0xD800 \<le> c \<and> c \<le> 0xDBFF"

definition isLowSurrogate :: "code_unit \<Rightarrow> bool" where
  "isLowSurrogate c \<longleftrightarrow> 0xDC00 \<le> c \<and> c \<le> 0xDFFF"

text \<open>\<open>String.prototype.charAt\<close>: the one-unit string at a position, the empty string
  when the position is out of range.\<close>

definition js_charAt :: "jsstring \<Rightarrow> int \<Rightarrow> jsstring" where
  "js_charAt s i = (if 0 \<le> i \<and> i < int (length s) then [s ! nat i] else [])"

section \<open>util.js: charAt\<close>

text \<open>
  \<^verbatim>\<open>
  function charAt( str, idx ) {
      let ret = '';
      str += '';
      let end = str.length;
      let surrogatePairs = /[\uD800-\uDBFF][\uDC00-\uDFFF]/g;
      while (( surrogatePairs.exec(str) ) != null) {
          let li = surrogatePairs.lastIndex;
          if (li - 2 < idx) { idx++; } else { break; }
      }
      if (idx >= end || idx < 0) { return ''; }
      ret += str.charAt(idx);
      if (/[\uD800-\uDBFF]/.test(ret) && /[\uDC00-\uDFFF]/.test(str.charAt(idx + 1))) {
          ret += str.charAt(idx + 1);
      }
      return ret;
  }
  \<close>
  The regular expression carries the flag \<open>g\<close>: each \<open>exec\<close> searches from its
  \<open>lastIndex\<close> for the leftmost high surrogate followed by a low one, and on a match sets
  \<open>lastIndex\<close> just behind it. \<open>surrogatePairs_search\<close> is that search on the rest of the
  string (the offset of the match), \<open>surrogatePairs_exec\<close> gives the new \<open>lastIndex\<close>, and
  \<open>charAt_loop\<close> is the while loop, returning the final \<open>idx\<close>.
\<close>

fun surrogatePairs_search :: "jsstring \<Rightarrow> nat option" where
  "surrogatePairs_search (h # l # rest) =
     (if isHighSurrogate h \<and> isLowSurrogate l then Some 0
      else map_option Suc (surrogatePairs_search (l # rest)))"
| "surrogatePairs_search _ = None"

definition surrogatePairs_exec :: "jsstring \<Rightarrow> nat \<Rightarrow> nat option" where
  "surrogatePairs_exec str lastIndex =
     (if length str < lastIndex then None
      else map_option (\<lambda>m. lastIndex + m + 2) (surrogatePairs_search (drop lastIndex str)))"

lemma surrogatePairs_search_bound:
  "surrogatePairs_search xs = Some m \<Longrightarrow> m + 2 \<le> length xs"
  by (induction xs arbitrary: m rule: surrogatePairs_search.induct) (auto split: if_splits)

lemma surrogatePairs_exec_bound:
  "surrogatePairs_exec str lastIndex = Some li \<Longrightarrow> lastIndex < li \<and> li \<le> length str"
  by (auto simp: surrogatePairs_exec_def split: if_splits dest!: surrogatePairs_search_bound)

function charAt_loop :: "jsstring \<Rightarrow> nat \<Rightarrow> int \<Rightarrow> int" where
  "charAt_loop str lastIndex idx =
     (case surrogatePairs_exec str lastIndex of
        None \<Rightarrow> idx
      | Some li \<Rightarrow> if int li - 2 < idx then charAt_loop str li (idx + 1) else idx)"
  by pat_completeness auto
termination
  by (relation "measure (\<lambda>(str, lastIndex, idx). length str - lastIndex)")
     (auto dest: surrogatePairs_exec_bound)

definition charAt :: "jsstring \<Rightarrow> int \<Rightarrow> jsstring" where
  "charAt str idx0 =
     (let end = int (length str);
          idx = charAt_loop str 0 idx0
      in if idx \<ge> end \<or> idx < 0 then []
         else let ret = js_charAt str idx
              in if list_ex isHighSurrogate ret \<and> list_ex isLowSurrogate (js_charAt str (idx + 1))
                 then ret @ js_charAt str (idx + 1)
                 else ret)"

text \<open>
  What the claim is measured against: the string cut into code points from the left, a high
  surrogate directly followed by a low surrogate being one code point of two units, every
  other unit (a lone surrogate too) one code point of its own.
\<close>

fun codepoints :: "jsstring \<Rightarrow> jsstring list" where
  "codepoints (h # l # rest) =
     (if isHighSurrogate h \<and> isLowSurrogate l then [h, l] # codepoints rest
      else [h] # codepoints (l # rest))"
| "codepoints [c] = [[c]]"
| "codepoints [] = []"

text \<open>The position, in code units, at which the loop leaves \<open>idx\<close> for the \<open>r\<close>-th code
  point of a string, and the one or two units the last lines of \<open>charAt\<close> read there.\<close>

fun unitIndex :: "jsstring \<Rightarrow> int \<Rightarrow> int" where
  "unitIndex (h # l # rest) r =
     (if r \<le> 0 then r
      else if isHighSurrogate h \<and> isLowSurrogate l then 2 + unitIndex rest (r - 1)
      else 1 + unitIndex (l # rest) (r - 1))"
| "unitIndex [c] r = r"
| "unitIndex [] r = r"

definition pick :: "jsstring \<Rightarrow> nat \<Rightarrow> jsstring" where
  "pick str f =
     (if isHighSurrogate (str ! f) \<and> f + 1 < length str \<and> isLowSurrogate (str ! (f + 1))
      then [str ! f, str ! (f + 1)] else [str ! f])"

declare charAt_loop.simps [simp del]

lemma unitIndex_no_pair: "surrogatePairs_search xs = None \<Longrightarrow> unitIndex xs r = r"
  by (induction xs r rule: unitIndex.induct) (auto split: if_splits)

lemma unitIndex_before_pair:
  "surrogatePairs_search xs = Some m \<Longrightarrow> r \<le> int m \<Longrightarrow> unitIndex xs r = r"
  by (induction xs r arbitrary: m rule: unitIndex.induct) (auto split: if_splits)

lemma unitIndex_after_pair:
  "surrogatePairs_search xs = Some m \<Longrightarrow> int m < r \<Longrightarrow>
   unitIndex xs r = int m + 2 + unitIndex (drop (m + 2) xs) (r - int m - 1)"
  by (induction xs r arbitrary: m rule: unitIndex.induct) (auto split: if_splits)

lemma charAt_loop_unitIndex:
  "lastIndex \<le> length str \<Longrightarrow>
   charAt_loop str lastIndex idx =
     int lastIndex + unitIndex (drop lastIndex str) (idx - int lastIndex)"
proof (induction str lastIndex idx rule: charAt_loop.induct)
  case (1 str lastIndex idx)
  show ?case
  proof (cases "surrogatePairs_search (drop lastIndex str)")
    case None
    with 1 show ?thesis
      by (simp add: charAt_loop.simps [of str lastIndex] surrogatePairs_exec_def
          unitIndex_no_pair)
  next
    case (Some m)
    have ex: "surrogatePairs_exec str lastIndex = Some (lastIndex + m + 2)"
      using Some 1 by (simp add: surrogatePairs_exec_def)
    have bnd: "lastIndex + m + 2 \<le> length str"
      using surrogatePairs_exec_bound [OF ex] by simp
    show ?thesis
    proof (cases "int m < idx - int lastIndex")
      case True
      have "charAt_loop str lastIndex idx = charAt_loop str (lastIndex + m + 2) (idx + 1)"
        using ex True by (simp add: charAt_loop.simps [of str lastIndex])
      also have "\<dots> = int (lastIndex + m + 2) +
          unitIndex (drop (lastIndex + m + 2) str) (idx + 1 - int (lastIndex + m + 2))"
        using "1.IH" [OF ex _ bnd] True by simp
      also have "\<dots> = int lastIndex + unitIndex (drop lastIndex str) (idx - int lastIndex)"
        using unitIndex_after_pair [OF Some True]
        by (simp add: add.commute add.left_commute algebra_simps)
      finally show ?thesis .
    next
      case False
      then show ?thesis
        using ex unitIndex_before_pair [OF Some, of "idx - int lastIndex"]
        by (simp add: charAt_loop.simps [of str lastIndex])
    qed
  qed
qed

lemma pick_Cons: "pick (x # xs) (Suc f) = pick xs f"
  by (simp add: pick_def)

lemma unitIndex_codepoints:
  "(r < 0 \<longrightarrow> unitIndex xs r = r) \<and>
   (0 \<le> r \<and> r < int (length (codepoints xs)) \<longrightarrow>
      0 \<le> unitIndex xs r \<and> unitIndex xs r < int (length xs) \<and>
      pick xs (nat (unitIndex xs r)) = codepoints xs ! nat r) \<and>
   (int (length (codepoints xs)) \<le> r \<longrightarrow> int (length xs) \<le> unitIndex xs r)"
proof (induction xs r rule: unitIndex.induct)
  case (1 h l rest r)
  show ?case
  proof (cases "r \<le> 0")
    case True
    then show ?thesis by (auto simp: pick_def)
  next
    case False
    note pos = this
    show ?thesis
    proof (cases "isHighSurrogate h \<and> isLowSurrogate l")
      case True
      have n: "nat (2 + unitIndex rest (r - 1)) = Suc (Suc (nat (unitIndex rest (r - 1))))"
        if "0 \<le> unitIndex rest (r - 1)" using that by simp
      have nr: "nat r = Suc (nat (r - 1))" using pos by simp
      show ?thesis using "1.IH"(1) [OF pos True] pos True
        by (auto simp: n nr pick_Cons)
    next
      case F2: False
      have n: "nat (1 + unitIndex (l # rest) (r - 1)) = Suc (nat (unitIndex (l # rest) (r - 1)))"
        if "0 \<le> unitIndex (l # rest) (r - 1)" using that by simp
      have nr: "nat r = Suc (nat (r - 1))" using pos by simp
      show ?thesis using "1.IH"(2) [OF pos F2] pos F2
        by (auto simp: n nr pick_Cons)
    qed
  qed
next
  case (2 c r)
  then show ?case by (auto simp: pick_def)
next
  case (3 r)
  then show ?case by auto
qed

lemma concat_codepoints: "concat (codepoints str) = str"
  by (induction str rule: codepoints.induct) auto

lemma codepoints_whole:
  "cp \<in> set (codepoints str) \<Longrightarrow>
     (\<exists>c. cp = [c]) \<or> (\<exists>h l. cp = [h, l] \<and> isHighSurrogate h \<and> isLowSurrogate l)"
  by (induction str rule: codepoints.induct) (auto split: if_splits)

text \<open>
  Claim C8. For every string and every code point index \<open>k\<close>, \<open>charAt\<close> returns the
  \<open>k\<close>-th code point of the string whole: both halves when the \<open>k\<close>-th code point is a
  surrogate pair, one unit otherwise, and the empty string when \<open>k\<close> is negative or beyond
  the last code point. It never returns one half of a pair.
\<close>

theorem charAt_whole_codepoint:
  "charAt str k =
     (if 0 \<le> k \<and> k < int (length (codepoints str)) then codepoints str ! nat k else [])"
proof -
  have loop: "charAt_loop str 0 k = unitIndex str k"
    using charAt_loop_unitIndex [of 0 str k] by simp
  have pk: "0 \<le> f \<Longrightarrow> f < int (length str) \<Longrightarrow>
      (let ret = js_charAt str f
       in if list_ex isHighSurrogate ret \<and> list_ex isLowSurrogate (js_charAt str (f + 1))
          then ret @ js_charAt str (f + 1) else ret) = pick str (nat f)" for f
    by (auto simp: js_charAt_def pick_def Let_def nat_add_distrib)
  have ch: "charAt str k =
      (if int (length str) \<le> unitIndex str k \<or> unitIndex str k < 0 then []
       else pick str (nat (unitIndex str k)))"
    using pk [of "unitIndex str k"] unfolding charAt_def loop Let_def by auto
  show ?thesis
    unfolding ch using unitIndex_codepoints [of k str] by auto
qed

theorem charAt_whole_codepoint_witness:
  "charAt [0x61, 0xD83D, 0xDE00, 0x62] 1 = [0xD83D, 0xDE00] \<and>
   charAt [0x61, 0xD83D, 0xDE00, 0x62] 2 = [0x62] \<and>
   charAt [0x61, 0xD83D, 0xDE00, 0x62] 3 = []"
  using charAt_whole_codepoint [of "[0x61, 0xD83D, 0xDE00, 0x62]" 1]
    charAt_whole_codepoint [of "[0x61, 0xD83D, 0xDE00, 0x62]" 2]
    charAt_whole_codepoint [of "[0x61, 0xD83D, 0xDE00, 0x62]" 3]
  by (simp add: isHighSurrogate_def isLowSurrogate_def)

section \<open>Exceptions\<close>

text \<open>
  A JavaScript call either returns a value or throws. A throwing computation is a value of
  \<open>js_error + 'a\<close>, \<open>Inl\<close> the exception; \<open>try_catch\<close> is the statement
  \<^verbatim>\<open>try { body } catch (error) { handler }\<close>.
\<close>

datatype js_error = URIError | TypeError | RangeError

definition try_catch ::
  "(js_error + 'a) \<Rightarrow> (js_error \<Rightarrow> js_error + 'a) \<Rightarrow> js_error + 'a" where
  "try_catch body handler = (case body of Inl error \<Rightarrow> handler error | Inr v \<Rightarrow> Inr v)"

section \<open>The built-ins decodeURI and decodeURIComponent\<close>

text \<open>
  Both built-ins run the abstract operation \<open>Decode\<close> of the language standard: a unit
  other than \<open>%\<close> is copied; \<open>%\<close> must be followed by two hexadecimal digits, else
  URIError; a byte below 128 is the character itself (kept in its escaped form when it is in
  the reserved set); a byte with the top bit set must open a UTF-8 sequence of 2 to 4
  bytes, each further byte again written \<open>%XX\<close> with top bits 10, and the sequence must be
  the valid encoding of a code point (not overlong, not a surrogate, at most 10FFFF), else
  URIError. A code point from 10000 on is written as a surrogate pair.
  \<open>decodeURIComponent\<close> reserves nothing, \<open>decodeURI\<close> reserves \<open>; / ? : @ & = + $ , #\<close>.
\<close>

definition hexDigit :: "code_unit \<Rightarrow> nat option" where
  "hexDigit c =
     (let n = unat c
      in if 48 \<le> n \<and> n \<le> 57 then Some (n - 48)
         else if 65 \<le> n \<and> n \<le> 70 then Some (n - 55)
         else if 97 \<le> n \<and> n \<le> 102 then Some (n - 87)
         else None)"

fun takeEscape :: "jsstring \<Rightarrow> (nat \<times> jsstring) option" where
  "takeEscape (p # a # b # rest) =
     (if p = 0x25
      then (case (hexDigit a, hexDigit b) of
              (Some x, Some y) \<Rightarrow> Some (16 * x + y, rest)
            | _ \<Rightarrow> None)
      else None)"
| "takeEscape _ = None"

fun takeOctets :: "nat \<Rightarrow> jsstring \<Rightarrow> (nat list \<times> jsstring) option" where
  "takeOctets 0 s = Some ([], s)"
| "takeOctets (Suc j) s =
     (case takeEscape s of
        None \<Rightarrow> None
      | Some (b, rest) \<Rightarrow>
          if b div 64 \<noteq> 2 then None
          else (case takeOctets j rest of
                  None \<Rightarrow> None
                | Some (bs, rest') \<Rightarrow> Some (b # bs, rest')))"

definition leadingOnes :: "nat \<Rightarrow> nat" where
  "leadingOnes b =
     (if b < 128 then 0 else if b < 192 then 1 else if b < 224 then 2
      else if b < 240 then 3 else if b < 248 then 4 else 5)"

fun utf8Value :: "nat list \<Rightarrow> nat option" where
  "utf8Value [b0, b1] =
     (let v = (b0 mod 32) * 64 + b1 mod 64 in if 0x80 \<le> v then Some v else None)"
| "utf8Value [b0, b1, b2] =
     (let v = (b0 mod 16) * 4096 + (b1 mod 64) * 64 + b2 mod 64
      in if 0x800 \<le> v \<and> \<not> (0xD800 \<le> v \<and> v \<le> 0xDFFF) then Some v else None)"
| "utf8Value [b0, b1, b2, b3] =
     (let v = (b0 mod 8) * 262144 + (b1 mod 64) * 4096 + (b2 mod 64) * 64 + b3 mod 64
      in if 0x10000 \<le> v \<and> v \<le> 0x10FFFF then Some v else None)"
| "utf8Value _ = None"

definition codeUnitsOf :: "nat \<Rightarrow> jsstring" where
  "codeUnitsOf v =
     (if v < 0x10000 then [of_nat v]
      else [of_nat (((v - 0x10000) div 1024) mod 1024 + 0xD800),
            of_nat ((v - 0x10000) mod 1024 + 0xDC00)])"

definition prepend :: "jsstring \<Rightarrow> js_error + jsstring \<Rightarrow> js_error + jsstring" where
  "prepend s r = (case r of Inl error \<Rightarrow> Inl error | Inr t \<Rightarrow> Inr (s @ t))"

lemma takeEscape_shorter: "takeEscape s = Some (b, rest) \<Longrightarrow> length rest < length s"
  by (cases s rule: takeEscape.cases) (auto split: if_splits option.splits)

lemma takeEscape_rest: "takeEscape s = Some (b, rest) \<Longrightarrow> rest = drop 3 s"
  by (cases s rule: takeEscape.cases) (auto split: if_splits option.splits)

lemma takeOctets_shorter: "takeOctets n s = Some (bs, rest) \<Longrightarrow> length rest \<le> length s"
proof (induction n arbitrary: s bs rest)
  case 0
  then show ?case by simp
next
  case (Suc n)
  then show ?case
    by (fastforce split: option.splits if_splits prod.splits dest: takeEscape_shorter)
qed

function Decode :: "(code_unit \<Rightarrow> bool) \<Rightarrow> jsstring \<Rightarrow> js_error + jsstring" where
  "Decode reservedSet [] = Inr []"
| "Decode reservedSet (c # cs) =
     (if c \<noteq> 0x25 then prepend [c] (Decode reservedSet cs)
      else (case takeEscape (c # cs) of
              None \<Rightarrow> Inl URIError
            | Some (b, rest) \<Rightarrow>
                if b < 128
                then prepend (if reservedSet (of_nat b) then take 3 (c # cs) else [of_nat b])
                       (Decode reservedSet rest)
                else let n = leadingOnes b
                     in if n = 1 \<or> 4 < n then Inl URIError
                        else (case takeOctets (n - 1) rest of
                                None \<Rightarrow> Inl URIError
                              | Some (bs, rest') \<Rightarrow>
                                  (case utf8Value (b # bs) of
                                     None \<Rightarrow> Inl URIError
                                   | Some v \<Rightarrow>
                                       prepend (codeUnitsOf v) (Decode reservedSet rest')))))"
  by pat_completeness auto
termination
proof (relation "measure (\<lambda>(reservedSet, s). length s)", goal_cases)
  case 1
  then show ?case by simp
next
  case (2 reservedSet c cs)
  then show ?case by simp
next
  case (3 reservedSet c cs x2 x y)
  then show ?case using takeEscape_shorter [of "c # cs" x y] by simp
next
  case (4 reservedSet c cs x2 x y xa x2a xb ya x2b)
  then show ?case
    using takeEscape_shorter [of "c # cs" x y] takeOctets_shorter [of "xa - 1" y xb ya]
    by simp
qed

definition decodeURIComponent :: "jsstring \<Rightarrow> js_error + jsstring" where
  "decodeURIComponent uri = Decode (\<lambda>c. False) uri"

definition uriReserved :: "code_unit \<Rightarrow> bool" where
  "uriReserved c \<longleftrightarrow> c \<in> set (js '';/?:@&=+$,#'')"

definition decodeURI :: "jsstring \<Rightarrow> js_error + jsstring" where
  "decodeURI uri = Decode uriReserved uri"

lemma takeOctets_numeral:
  "takeOctets (numeral k) s =
     (case takeEscape s of
        None \<Rightarrow> None
      | Some (b, rest) \<Rightarrow>
          if b div 64 \<noteq> 2 then None
          else (case takeOctets (pred_numeral k) rest of
                  None \<Rightarrow> None
                | Some (bs, rest') \<Rightarrow> Some (b # bs, rest')))"
  by (simp add: numeral_eq_Suc)

lemmas decode_eval = decodeURIComponent_def decodeURI_def uriReserved_def js_def hexDigit_def
  prepend_def leadingOnes_def codeUnitsOf_def takeOctets_numeral

lemma decodeURIComponent_euro: "decodeURIComponent (js ''%E2%82%AC'') = Inr [0x20AC]"
  by (simp add: decode_eval)

lemma decodeURIComponent_emoji:
  "decodeURIComponent (js ''%F0%9F%98%80'') = Inr [0xD83D, 0xDE00]"
  by (simp add: decode_eval)

lemma decodeURIComponent_lone_percent: "decodeURIComponent (js ''100%'') = Inl URIError"
  by (simp add: decode_eval)

lemma decodeURIComponent_surrogate: "decodeURIComponent (js ''%ED%A0%80'') = Inl URIError"
  by (simp add: decode_eval)

lemma decodeURI_keeps_reserved: "decodeURI (js ''a%2Fb%20c'') = Inr (js ''a%2Fb c'')"
  by (simp add: decode_eval)

section \<open>util.js: myDecodeURIComponent\<close>

text \<open>
  \<^verbatim>\<open>
  function myDecodeURIComponent( uri ) {
      try {
          return decodeURIComponent(uri);
      } catch (error) {
          console.error(error);
          return uri;
      }
  }
  \<close>
\<close>

definition myDecodeURIComponent :: "jsstring \<Rightarrow> js_error + jsstring" where
  "myDecodeURIComponent uri = try_catch (decodeURIComponent uri) (\<lambda>error. Inr uri)"

text \<open>
  Claim C10. \<open>myDecodeURIComponent\<close> is total: on every string it returns (it is never
  \<open>Inl\<close>, an exception reaching the caller), and what it returns is the percent-decoded
  string when \<open>decodeURIComponent\<close> succeeds and the input unchanged when
  \<open>decodeURIComponent\<close> raises.
\<close>

theorem myDecodeURIComponent_total:
  "(\<exists>s. decodeURIComponent uri = Inr s \<and> myDecodeURIComponent uri = Inr s) \<or>
   ((\<exists>error. decodeURIComponent uri = Inl error) \<and> myDecodeURIComponent uri = Inr uri)"
  by (cases "decodeURIComponent uri") (simp_all add: myDecodeURIComponent_def try_catch_def)

theorem myDecodeURIComponent_total_witness:
  "myDecodeURIComponent (js ''%E2%82%AC'') = Inr [0x20AC] \<and>
   myDecodeURIComponent (js ''100%'') = Inr (js ''100%'')"
  using myDecodeURIComponent_total [of "js ''%E2%82%AC''"]
    myDecodeURIComponent_total [of "js ''100%''"]
    decodeURIComponent_euro decodeURIComponent_lone_percent
  by auto

lemma myDecodeURIComponent_returns: "\<exists>s. myDecodeURIComponent uri = Inr s"
  by (cases "decodeURIComponent uri") (simp_all add: myDecodeURIComponent_def try_catch_def)

section \<open>extractTargetIdFromHref\<close>

text \<open>
  \<^verbatim>\<open>
  function extractTargetIdFromHref( href ) {
      try {
          let pathname = urlParser.parse(href, false, true).pathname || '';
          if (pathname.indexOf('./') == 0) {
              return util.myDecodeURIComponent(pathname.substr(2));
          } else if (pathname.indexOf(webUrlPath) == 0) {
              return util.myDecodeURIComponent(pathname.substr(webUrlPath.length));
          }
      } catch (error) {
          printErr('Unable to parse href ' + href);
          return '';
      }
  }
  \<close>
  \<open>urlParser\<close> is the URL module of the runtime. The model takes it as the function
  \<open>parsePathname\<close>: for a href, either the exception the parser throws or the
  \<open>pathname\<close> of the parsed URL, \<open>None\<close> for \<open>null\<close>. \<open>webUrlPath\<close> is the global of
  that name. A JavaScript function that ends without \<open>return\<close> returns \<open>undefined\<close>,
  which is not a string: the result is a \<open>jsval\<close>.
\<close>

datatype jsval = Undefined | Str jsstring

definition indexOf_is_0 :: "jsstring \<Rightarrow> jsstring \<Rightarrow> bool" where
  "indexOf_is_0 s x \<longleftrightarrow> take (length x) s = x"

definition extractTargetIdFromHref ::
  "jsstring \<Rightarrow> (jsstring \<Rightarrow> js_error + jsstring option) \<Rightarrow> jsstring \<Rightarrow> js_error + jsval" where
  "extractTargetIdFromHref webUrlPath parsePathname href =
     try_catch
       (case parsePathname href of
          Inl error \<Rightarrow> Inl error
        | Inr p \<Rightarrow>
            let pathname = (case p of None \<Rightarrow> [] | Some s \<Rightarrow> s)
            in if indexOf_is_0 pathname (js ''./'')
               then map_sum id Str (myDecodeURIComponent (drop 2 pathname))
               else if indexOf_is_0 pathname webUrlPath
               then map_sum id Str (myDecodeURIComponent (drop (length webUrlPath) pathname))
               else Inr Undefined)
       (\<lambda>error. Inr (Str []))"

lemma extractTargetIdFromHref_never_throws:
  "\<exists>v. extractTargetIdFromHref webUrlPath parsePathname href = Inr v"
proof -
  obtain s t where "myDecodeURIComponent (drop 2 (case_option [] id (projr (parsePathname href)))) = Inr s"
    and "myDecodeURIComponent (drop (length webUrlPath)
           (case_option [] id (projr (parsePathname href)))) = Inr t"
    using myDecodeURIComponent_returns by meson
  then show ?thesis
    by (cases "parsePathname href")
       (auto simp: extractTargetIdFromHref_def try_catch_def Let_def split: option.splits)
qed

lemma extractTargetIdFromHref_dot_slash:
  "parsePathname href = Inr (Some pathname) \<Longrightarrow> indexOf_is_0 pathname (js ''./'') \<Longrightarrow>
   \<exists>s. myDecodeURIComponent (drop 2 pathname) = Inr s \<and>
       extractTargetIdFromHref webUrlPath parsePathname href = Inr (Str s)"
  using myDecodeURIComponent_returns [of "drop 2 pathname"]
  by (auto simp: extractTargetIdFromHref_def try_catch_def)

lemma extractTargetIdFromHref_base_path:
  "parsePathname href = Inr (Some pathname) \<Longrightarrow> \<not> indexOf_is_0 pathname (js ''./'') \<Longrightarrow>
   indexOf_is_0 pathname webUrlPath \<Longrightarrow>
   \<exists>s. myDecodeURIComponent (drop (length webUrlPath) pathname) = Inr s \<and>
       extractTargetIdFromHref webUrlPath parsePathname href = Inr (Str s)"
  using myDecodeURIComponent_returns [of "drop (length webUrlPath) pathname"]
  by (auto simp: extractTargetIdFromHref_def try_catch_def)

lemma extractTargetIdFromHref_parser_throws:
  "parsePathname href = Inl error \<Longrightarrow>
   extractTargetIdFromHref webUrlPath parsePathname href = Inr (Str [])"
  by (simp add: extractTargetIdFromHref_def try_catch_def)

text \<open>
  Claim C5 says that every href that matches neither prefix yields the empty string. The
  code returns the empty string only from the \<open>catch\<close> block. When the parser succeeds and
  the pathname (the empty one of an empty href included) starts with neither \<open>./\<close> nor the
  wiki base path, no \<open>return\<close> is reached and the result is \<open>undefined\<close>.
\<close>

theorem extractTargetIdFromHref_other_path_undefined:
  "parsePathname href = Inr p \<Longrightarrow>
   \<not> indexOf_is_0 (case p of None \<Rightarrow> [] | Some s \<Rightarrow> s) (js ''./'') \<Longrightarrow>
   \<not> indexOf_is_0 (case p of None \<Rightarrow> [] | Some s \<Rightarrow> s) webUrlPath \<Longrightarrow>
   extractTargetIdFromHref webUrlPath parsePathname href = Inr Undefined"
  by (simp add: extractTargetIdFromHref_def try_catch_def)

theorem extractTargetIdFromHref_other_path_undefined_witness:
  "extractTargetIdFromHref (js ''/wiki/'') (\<lambda>href. Inr None) [] = Inr Undefined \<and>
   extractTargetIdFromHref (js ''/wiki/'') (\<lambda>href. Inr (Some (js ''/w/index.php''))) 
     (js ''/w/index.php?title=Foo'') = Inr Undefined"
  using extractTargetIdFromHref_other_path_undefined
      [of "\<lambda>href. Inr None" "[]" None "js ''/wiki/''"]
    extractTargetIdFromHref_other_path_undefined
      [of "\<lambda>href. Inr (Some (js ''/w/index.php''))" "js ''/w/index.php?title=Foo''"
          "Some (js ''/w/index.php'')" "js ''/wiki/''"]
  by (simp add: indexOf_is_0_def js_def)

section \<open>downloadContent\<close>

text \<open>
  \<^verbatim>\<open>
  function downloadContent( url, callback, var1, var2, var3 ) {
      let retryCount = 0;
      let responseHeaders = {};
      printLog('Downloading ' + decodeURI(url) + '...');
      async.retry(3,
          function (finished) {
              let request;
              let calledFinished = false;
              function callFinished(timeout, message, data) {
                  if (!calledFinished) {
                      calledFinished = true;
                      if (message) { printErr(message); request.abort(); }
                      request = undefined;
                      setTimeout(finished, timeout, message, data);
                  }
              }
              retryCount++;
              ...
              request = ( protocol ).get(options, function (response) {
                  if (response.statusCode == 200) {
                      ... response.on('end', function () {
                          ... if (encoding == 'gzip') {
                              zlib.gunzip(Buffer.concat(chunks), function (error, decoded) {
                                  callFinished(0, error, decoded && decoded.toString()); });
                          } else if (encoding == 'deflate') { ... the same with zlib.inflate ...
                          } else { callFinished(0, null, Buffer.concat(chunks)); }
                      });
                      response.on('error', function (error) {
                          ... callFinished(0, 'Unable to download content [' ... ); });
                  } else {
                      ... callFinished(0, 'Unable to download content [' ... '(statusCode=' ...);
                  }
              });
              request.on('error', function (error) {
                  callFinished(10000 * retryCount, 'Unable to download content [' ...); });
              request.on('socket', ... socket 'error' and 'timeout': request.emit('error', ...) ...);
              request.setTimeout(requestTimeout * 1000 * retryCount);
              request.end();
          },
          function (error, data) {
              if (error) { printErr('Absolutly unable to retrieve async. URL: ' + error); }
              callback(data || new Buffer(0), responseHeaders, var1, var2, var3);
          });
  }
  \<close>
  The network is the environment. For the attempt with a given \<open>retryCount\<close> it delivers a
  list of events, in the order in which their handlers run; each event is one of the paths
  of the source that end in \<open>callFinished\<close>: a response (its status code and, for status
  200, how the body stream ended), or an error on the request (the socket handlers emit
  that one too). An attempt that hangs for ever has no event. \<open>async.retry\<close> is the
  library's: it runs the task, and on each call of \<open>finished\<close> either runs the task again
  (an error, and attempts left) or calls the final function with the error and the data
  of that call. The response headers handed to the callback are left out.
\<close>

datatype body = Buffer "8 word list" | Text jsstring

datatype stream_end =
    EndPlain "8 word list"
  | EndGzip "jsstring option"
  | EndDeflate "jsstring option"
  | StreamError

datatype net_event = Response nat stream_end | RequestError

datatype message = ZlibError | ResponseErrorMessage nat nat | StatusCodeMessage nat nat
  | RequestErrorMessage nat

text \<open>The arguments \<open>(timeout, message, data)\<close> with which the handler of an event calls
  \<open>callFinished\<close>. zlib calls back with an error and no buffer, or no error and the buffer.\<close>

fun completion :: "nat \<Rightarrow> net_event \<Rightarrow> nat \<times> message option \<times> body option" where
  "completion retryCount (Response statusCode s) =
     (if statusCode = 200
      then (case s of
              EndPlain chunks \<Rightarrow> (0, None, Some (Buffer chunks))
            | EndGzip None \<Rightarrow> (0, Some ZlibError, None)
            | EndGzip (Some decoded) \<Rightarrow> (0, None, Some (Text decoded))
            | EndDeflate None \<Rightarrow> (0, Some ZlibError, None)
            | EndDeflate (Some decoded) \<Rightarrow> (0, None, Some (Text decoded))
            | StreamError \<Rightarrow> (0, Some (ResponseErrorMessage retryCount statusCode), None))
      else (0, Some (StatusCodeMessage retryCount statusCode), None))"
| "completion retryCount RequestError =
     (10000 * retryCount, Some (RequestErrorMessage retryCount), None)"

record attempt_state =
  calledFinished :: bool
  scheduled :: "(nat \<times> message option \<times> body option) list"

definition callFinished ::
  "attempt_state \<Rightarrow> nat \<times> message option \<times> body option \<Rightarrow> attempt_state" where
  "callFinished st args =
     (if \<not> calledFinished st
      then st\<lparr>calledFinished := True, scheduled := scheduled st @ [args]\<rparr>
      else st)"

definition run_attempt :: "nat \<Rightarrow> net_event list \<Rightarrow> attempt_state" where
  "run_attempt retryCount events =
     foldl (\<lambda>st ev. callFinished st (completion retryCount ev))
       \<lparr>calledFinished = False, scheduled = []\<rparr> events"

datatype obs = Get nat nat | Finished nat | Callback body

text \<open>\<open>data || new Buffer(0)\<close>: \<open>undefined\<close> and the empty string are falsy, a buffer is not.\<close>

definition final_callback :: "message option \<Rightarrow> body option \<Rightarrow> obs list" where
  "final_callback error data =
     [Callback (case data of None \<Rightarrow> Buffer [] | Some (Text []) \<Rightarrow> Buffer [] | Some d \<Rightarrow> d)]"

fun retry :: "nat \<Rightarrow> nat \<Rightarrow> nat \<Rightarrow> (nat \<Rightarrow> net_event list) \<Rightarrow> obs list" where
  "retry 0 retryCount requestTimeout env = []"
| "retry (Suc left) retryCount0 requestTimeout env =
     (let retryCount = retryCount0 + 1
      in Get retryCount (requestTimeout * 1000 * retryCount) #
         concat (map (\<lambda>(timeout, message, data).
                        Finished timeout #
                        (if message \<noteq> None \<and> left \<noteq> 0
                         then retry left retryCount requestTimeout env
                         else final_callback message data))
                   (scheduled (run_attempt retryCount (env retryCount)))))"

definition downloadContent ::
  "nat \<Rightarrow> (nat \<Rightarrow> net_event list) \<Rightarrow> jsstring \<Rightarrow> js_error + obs list" where
  "downloadContent requestTimeout env url =
     (case decodeURI url of
        Inl error \<Rightarrow> Inl error
      | Inr decoded \<Rightarrow> Inr (retry 3 0 requestTimeout env))"

definition gets :: "obs list \<Rightarrow> (nat \<times> nat) list" where
  "gets tr = concat (map (\<lambda>ob. case ob of Get n t \<Rightarrow> [(n, t)] | _ \<Rightarrow> []) tr)"

definition callbacks :: "obs list \<Rightarrow> body list" where
  "callbacks tr = concat (map (\<lambda>ob. case ob of Callback b \<Rightarrow> [b] | _ \<Rightarrow> []) tr)"

text \<open>The events after which an attempt counts as failed: every path that hands a message
  to \<open>callFinished\<close>.\<close>

fun isFailure :: "net_event \<Rightarrow> bool" where
  "isFailure (Response statusCode s) =
     (statusCode \<noteq> 200 \<or> s = StreamError \<or> s = EndGzip None \<or> s = EndDeflate None)"
| "isFailure RequestError = True"

definition attemptFails :: "net_event list \<Rightarrow> bool" where
  "attemptFails events = (case events of [] \<Rightarrow> False | ev # rest \<Rightarrow> isFailure ev)"

lemma foldl_callFinished_called:
  "calledFinished st \<Longrightarrow>
   foldl (\<lambda>st ev. callFinished st (completion retryCount ev)) st events = st"
  by (induction events arbitrary: st) (simp_all add: callFinished_def)

lemma run_attempt_scheduled:
  "scheduled (run_attempt retryCount events) =
     (case events of [] \<Rightarrow> [] | ev # rest \<Rightarrow> [completion retryCount ev])"
proof (cases events)
  case Nil
  then show ?thesis by (simp add: run_attempt_def)
next
  case (Cons ev rest)
  have first: "callFinished \<lparr>calledFinished = False, scheduled = []\<rparr> args =
      \<lparr>calledFinished = True, scheduled = [args]\<rparr>" for args
    by (simp add: callFinished_def)
  show ?thesis
    unfolding Cons run_attempt_def by (simp add: first foldl_callFinished_called)
qed

lemma isFailure_completion:
  "isFailure ev \<Longrightarrow> \<exists>timeout m. completion retryCount ev = (timeout, Some m, None)"
  by (cases ev) (auto split: stream_end.splits option.splits)

lemma retry_Suc_fails:
  "attemptFails (env (Suc retryCount0)) \<Longrightarrow>
   \<exists>timeout m. retry (Suc left) retryCount0 requestTimeout env =
     Get (Suc retryCount0) (requestTimeout * 1000 * Suc retryCount0) # Finished timeout #
       (if left \<noteq> 0 then retry left (Suc retryCount0) requestTimeout env
        else final_callback (Some m) None)"
proof -
  assume "attemptFails (env (Suc retryCount0))"
  then obtain ev rest where e: "env (Suc retryCount0) = ev # rest" and f: "isFailure ev"
    by (auto simp: attemptFails_def split: list.splits)
  from isFailure_completion [OF f, of "Suc retryCount0"] obtain timeout m
    where "completion (Suc retryCount0) ev = (timeout, Some m, None)" by blast
  then show ?thesis
    using e by (auto simp: run_attempt_scheduled)
qed

lemma gets_retry_bound:
  "(n, t) \<in> set (gets (retry left retryCount0 requestTimeout env)) \<Longrightarrow>
   retryCount0 < n \<and> n \<le> retryCount0 + left \<and> t = requestTimeout * 1000 * n"
proof (induction left arbitrary: retryCount0)
  case 0
  then show ?case by (simp add: gets_def)
next
  case (Suc left)
  show ?case
  proof (cases "env (Suc retryCount0)")
    case Nil
    with Suc.prems show ?thesis
      by (auto simp: gets_def run_attempt_scheduled)
  next
    case (Cons ev rest)
    obtain timeout m d where c: "completion (Suc retryCount0) ev = (timeout, m, d)"
      by (cases "completion (Suc retryCount0) ev") auto
    show ?thesis
    proof (cases "m \<noteq> None \<and> left \<noteq> 0")
      case True
      with Suc.prems Cons c
      have "(n, t) = (Suc retryCount0, requestTimeout * 1000 * Suc retryCount0) \<or>
            (n, t) \<in> set (gets (retry left (Suc retryCount0) requestTimeout env))"
        by (auto simp: gets_def run_attempt_scheduled)
      then show ?thesis using Suc.IH [of "Suc retryCount0"] by auto
    next
      case False
      with Suc.prems Cons c show ?thesis
        by (auto simp: gets_def run_attempt_scheduled final_callback_def)
    qed
  qed
qed

lemma length_gets_retry: "length (gets (retry left retryCount0 requestTimeout env)) \<le> left"
proof (induction left arbitrary: retryCount0)
  case 0
  then show ?case by (simp add: gets_def)
next
  case (Suc left)
  show ?case
  proof (cases "env (Suc retryCount0)")
    case Nil
    then show ?thesis by (simp add: gets_def run_attempt_scheduled)
  next
    case (Cons ev rest)
    obtain timeout m d where c: "completion (Suc retryCount0) ev = (timeout, m, d)"
      by (cases "completion (Suc retryCount0) ev") auto
    have "length (gets (retry left (Suc retryCount0) requestTimeout env)) \<le> left"
      by (rule Suc.IH)
    then show ?thesis using Cons c
      by (auto simp: gets_def run_attempt_scheduled final_callback_def)
  qed
qed

lemma length_callbacks_retry:
  "\<forall>n. retryCount0 < n \<and> n \<le> retryCount0 + left \<longrightarrow> env n \<noteq> [] \<Longrightarrow> 0 < left \<Longrightarrow>
   length (callbacks (retry left retryCount0 requestTimeout env)) = 1"
proof (induction left arbitrary: retryCount0)
  case 0
  then show ?case by simp
next
  case (Suc left)
  from Suc.prems(1) obtain ev rest where e: "env (Suc retryCount0) = ev # rest"
    by (cases "env (Suc retryCount0)") auto
  obtain timeout m d where c: "completion (Suc retryCount0) ev = (timeout, m, d)"
    by (cases "completion (Suc retryCount0) ev") auto
  show ?case
  proof (cases "m \<noteq> None \<and> left \<noteq> 0")
    case True
    have "length (callbacks (retry left (Suc retryCount0) requestTimeout env)) = 1"
      using Suc.IH [of "Suc retryCount0"] Suc.prems(1) True by auto
    then show ?thesis using e c True
      by (auto simp: callbacks_def run_attempt_scheduled)
  next
    case False
    then show ?thesis using e c
      by (auto simp: callbacks_def run_attempt_scheduled final_callback_def)
  qed
qed

lemma gets_retry_first:
  "0 < left \<Longrightarrow>
   (Suc retryCount0, requestTimeout * 1000 * Suc retryCount0)
     \<in> set (gets (retry left retryCount0 requestTimeout env))"
  by (cases left) (simp_all add: gets_def)

lemma gets_retry_next:
  "(n, t) \<in> set (gets (retry left retryCount0 requestTimeout env)) \<Longrightarrow>
   n < retryCount0 + left \<Longrightarrow> attemptFails (env n) \<Longrightarrow>
   (Suc n, requestTimeout * 1000 * Suc n)
     \<in> set (gets (retry left retryCount0 requestTimeout env))"
proof (induction left arbitrary: retryCount0)
  case 0
  then show ?case by (simp add: gets_def)
next
  case (Suc left)
  show ?case
  proof (cases "n = Suc retryCount0")
    case True
    with Suc.prems have l: "0 < left" and f: "attemptFails (env (Suc retryCount0))" by auto
    from retry_Suc_fails [of env retryCount0 left requestTimeout] f l obtain timeout where
      r: "retry (Suc left) retryCount0 requestTimeout env =
        Get (Suc retryCount0) (requestTimeout * 1000 * Suc retryCount0) # Finished timeout #
        retry left (Suc retryCount0) requestTimeout env" by auto
    have "(Suc n, requestTimeout * 1000 * Suc n)
        \<in> set (gets (retry left (Suc retryCount0) requestTimeout env))"
      unfolding True by (rule gets_retry_first [OF l])
    then show ?thesis unfolding r by (simp add: gets_def)
  next
    case False
    show ?thesis
    proof (cases "env (Suc retryCount0)")
      case Nil
      with Suc.prems False show ?thesis by (auto simp: gets_def run_attempt_scheduled)
    next
      case (Cons ev rest)
      obtain timeout m d where c: "completion (Suc retryCount0) ev = (timeout, m, d)"
        by (cases "completion (Suc retryCount0) ev") auto
      show ?thesis
      proof (cases "m \<noteq> None \<and> left \<noteq> 0")
        case True
        with Suc.prems Cons c False
        have "(n, t) \<in> set (gets (retry left (Suc retryCount0) requestTimeout env))"
          by (auto simp: gets_def run_attempt_scheduled)
        from Suc.IH [OF this] Suc.prems
        have "(Suc n, requestTimeout * 1000 * Suc n)
            \<in> set (gets (retry left (Suc retryCount0) requestTimeout env))" by simp
        then show ?thesis using Cons c True
          by (auto simp: gets_def run_attempt_scheduled)
      next
        case F: False
        with Suc.prems Cons c False show ?thesis
          by (auto simp: gets_def run_attempt_scheduled final_callback_def)
      qed
    qed
  qed
qed

lemma retry_all_fail:
  "attemptFails (env 1) \<Longrightarrow> attemptFails (env 2) \<Longrightarrow> attemptFails (env 3) \<Longrightarrow>
   \<exists>t1 t2 t3. retry 3 0 requestTimeout env =
     [Get 1 (requestTimeout * 1000), Finished t1, Get 2 (requestTimeout * 1000 * 2),
      Finished t2, Get 3 (requestTimeout * 1000 * 3), Finished t3, Callback (Buffer [])]"
proof -
  assume f1: "attemptFails (env 1)" and f2: "attemptFails (env 2)" and f3: "attemptFails (env 3)"
  have s2: "Suc (Suc 0) = 2" and s3: "Suc 2 = 3" by simp_all
  from retry_Suc_fails [of env 0 2 requestTimeout] f1 obtain t1 where
    r1: "retry 3 0 requestTimeout env =
      Get 1 (requestTimeout * 1000) # Finished t1 # retry 2 1 requestTimeout env"
    by (auto simp: s3)
  from retry_Suc_fails [of env 1 1 requestTimeout] f2 obtain t2 where
    r2: "retry 2 1 requestTimeout env =
      Get 2 (requestTimeout * 1000 * 2) # Finished t2 # retry 1 2 requestTimeout env"
    by (auto simp: s2)
  from retry_Suc_fails [of env 2 0 requestTimeout] f3 obtain t3 m where
    r3: "retry 1 2 requestTimeout env =
      Get 3 (requestTimeout * 1000 * 3) # Finished t3 # final_callback (Some m) None"
    by (auto simp: s3)
  show ?thesis unfolding r1 r2 r3 by (simp add: final_callback_def)
qed

text \<open>
  Claim C3. \<open>downloadContent\<close> makes at most 3 attempts; attempt \<open>n\<close> sets the request
  timeout to \<open>requestTimeout * 1000 * n\<close> milliseconds (\<open>requestTimeout\<close> is configured in
  seconds); an attempt that ends in a status other than 200 (as any failed attempt) is
  followed by a further attempt as long as fewer than 3 were made; and when all three
  attempts fail the callback is still invoked, once, with the zero-length buffer.
\<close>

theorem downloadContent_retries:
  "downloadContent requestTimeout env url = Inr tr \<Longrightarrow>
   length (gets tr) \<le> 3 \<and>
   (\<forall>n t. (n, t) \<in> set (gets tr) \<longrightarrow> 1 \<le> n \<and> n \<le> 3 \<and> t = requestTimeout * 1000 * n) \<and>
   (\<forall>n t statusCode s rest.
      (n, t) \<in> set (gets tr) \<and> n < 3 \<and> env n = Response statusCode s # rest \<and>
      statusCode \<noteq> 200 \<longrightarrow> (Suc n, requestTimeout * 1000 * Suc n) \<in> set (gets tr)) \<and>
   (attemptFails (env 1) \<and> attemptFails (env 2) \<and> attemptFails (env 3) \<longrightarrow>
      gets tr = [(1, requestTimeout * 1000), (2, requestTimeout * 1000 * 2),
                 (3, requestTimeout * 1000 * 3)] \<and>
      callbacks tr = [Buffer []])"
proof -
  assume "downloadContent requestTimeout env url = Inr tr"
  then have tr: "tr = retry 3 0 requestTimeout env"
    by (auto simp: downloadContent_def split: sum.splits)
  have a: "length (gets tr) \<le> 3"
    unfolding tr by (rule length_gets_retry)
  have b: "1 \<le> n \<and> n \<le> 3 \<and> t = requestTimeout * 1000 * n" if "(n, t) \<in> set (gets tr)" for n t
    using gets_retry_bound [of n t 3 0 requestTimeout env] that unfolding tr by simp
  have c: "(Suc n, requestTimeout * 1000 * Suc n) \<in> set (gets tr)"
    if "(n, t) \<in> set (gets tr)" "n < 3" "env n = Response statusCode s # rest" "statusCode \<noteq> 200"
    for n t statusCode s rest
    using gets_retry_next [of n t 3 0 requestTimeout env] that unfolding tr
    by (simp add: attemptFails_def)
  have d: "gets tr = [(1, requestTimeout * 1000), (2, requestTimeout * 1000 * 2),
                 (3, requestTimeout * 1000 * 3)] \<and> callbacks tr = [Buffer []]"
    if "attemptFails (env 1)" "attemptFails (env 2)" "attemptFails (env 3)"
    using retry_all_fail [OF that, of requestTimeout] unfolding tr
    by (auto simp: gets_def callbacks_def)
  show ?thesis using a b c d by blast
qed

lemma retry_3: "retry 3 retryCount0 requestTimeout env =
    retry (Suc (Suc (Suc 0))) retryCount0 requestTimeout env"
  by (simp add: numeral_3_eq_3)

lemma decodeURI_host_x: "decodeURI (js ''http://host/x'') = Inr (js ''http://host/x'')"
  by (simp add: decode_eval)

lemma downloadContent_all_503:
  "downloadContent 60 (\<lambda>n. [Response 503 StreamError]) (js ''http://host/x'') =
     Inr [Get 1 60000, Finished 0, Get 2 120000, Finished 0, Get 3 180000, Finished 0,
          Callback (Buffer [])]"
  by (simp add: downloadContent_def decodeURI_host_x retry_3 run_attempt_scheduled
      final_callback_def)

theorem downloadContent_retries_witness:
  "downloadContent 60 (\<lambda>n. [Response 503 StreamError]) (js ''http://host/x'') =
     Inr [Get 1 60000, Finished 0, Get 2 120000, Finished 0, Get 3 180000, Finished 0,
          Callback (Buffer [])] \<and>
   gets [Get 1 60000, Finished 0, Get 2 120000, Finished 0, Get 3 180000, Finished 0,
          Callback (Buffer [])] = [(1, 60000), (2, 120000), (3, 180000)] \<and>
   callbacks [Get 1 60000, Finished 0, Get 2 120000, Finished 0, Get 3 180000, Finished 0,
          Callback (Buffer [])] = [Buffer []]"
proof -
  have "attemptFails [Response 503 StreamError]" by (simp add: attemptFails_def)
  then show ?thesis
    using downloadContent_retries [OF downloadContent_all_503] downloadContent_all_503
    by simp
qed

text \<open>
  Claim C9 says that the callback is invoked exactly once for every invocation. The first
  statement of the function evaluates \<open>decodeURI(url)\<close> for a log line, before
  \<open>async.retry\<close> is reached: on a URL with a malformed percent escape the built-in
  throws, \<open>downloadContent\<close> is left by the exception and the callback is never invoked.
\<close>

theorem downloadContent_callback_counterexample:
  "\<not> (\<exists>tr. downloadContent 60 (\<lambda>n. [Response 200 (EndPlain [])]) (js ''http://host/100%'') = Inr tr
        \<and> length (callbacks tr) = 1)"
proof -
  have "decodeURI (js ''http://host/100%'') = Inl URIError"
    by (simp add: decode_eval)
  then show ?thesis by (simp add: downloadContent_def)
qed

text \<open>
  Claim C9, amended. For every invocation whose URL \<open>decodeURI\<close> accepts, and whenever each
  of the (at most three) attempts reaches at least one of its completion paths (the end of
  a response with status 200, an error on that response, another status, an error on the
  request), the callback is invoked exactly once: however many further events an attempt
  receives after its first, the \<open>calledFinished\<close> guard lets only the first call
  \<open>finished\<close>.
\<close>

theorem downloadContent_callback_once:
  "decodeURI url = Inr decoded \<Longrightarrow> env 1 \<noteq> [] \<Longrightarrow> env 2 \<noteq> [] \<Longrightarrow> env 3 \<noteq> [] \<Longrightarrow>
   \<exists>tr. downloadContent requestTimeout env url = Inr tr \<and> length (callbacks tr) = 1"
proof -
  assume d: "decodeURI url = Inr decoded" and e: "env 1 \<noteq> []" "env 2 \<noteq> []" "env 3 \<noteq> []"
  have all: "\<forall>n. 0 < n \<and> n \<le> 0 + 3 \<longrightarrow> env n \<noteq> []"
  proof (intro allI impI)
    fix n :: nat
    assume "0 < n \<and> n \<le> 0 + 3"
    then have "n = 1 \<or> n = 2 \<or> n = 3" by arith
    then show "env n \<noteq> []" using e by auto
  qed
  have "length (callbacks (retry 3 0 requestTimeout env)) = 1"
    by (rule length_callbacks_retry [OF all]) simp
  then show ?thesis using d by (simp add: downloadContent_def)
qed

theorem downloadContent_callback_once_witness:
  "\<exists>tr. downloadContent 60
          (\<lambda>n. if n = 1 then [Response 404 StreamError, RequestError, RequestError]
                else [Response 200 (EndPlain [0x68, 0x69]), RequestError])
          (js ''http://host/x'') = Inr tr \<and> length (callbacks tr) = 1"
  using downloadContent_callback_once [OF decodeURI_host_x,
      of "\<lambda>n. if n = 1 then [Response 404 StreamError, RequestError, RequestError]
                else [Response 200 (EndPlain [0x68, 0x69]), RequestError]" 60]
  by simp

section \<open>downloadFileAndCache\<close>

text \<open>
  \<^verbatim>\<open>
  function downloadFileAndCache( url, callback ) {
      let parts = mediaRegex.exec(decodeURI(url));
      let filenameBase = ( parts[2].length > parts[5].length ? parts[2]
                           : parts[5] + (parts[6] || ".svg") + ( parts[7] || '' ) );
      let width = parseInt(parts[4].replace(/px\-/g, '')) || INFINITY_WIDTH;
      redisClient.hget(redisMediaIdsDatabase, filenameBase, function (error, r_width) {
          if (error || !r_width || r_width < width) {
              redisClient.hset(redisMediaIdsDatabase, filenameBase, width, function (error) {
                  if (error) { ... process.exit(1);
                  } else {
                      let mediaPath = getMediaPath(url);
                      let cachePath = cacheDirectory + 'm/' + sha1(filenameBase).substr(0, 20) + extname(url);
                      let cacheHeadersPath = cachePath + '.h';
                      let toDownload = false;
                      if (fs.existsSync(cacheHeadersPath) && fs.existsSync(cachePath)) {
                          let responseHeaders;
                          try { responseHeaders = JSON.parse(fs.readFileSync(cacheHeadersPath).toString());
                          } catch (error) { ... responseHeaders = undefined; }
                          if (!responseHeaders || responseHeaders.width < width) {
                              toDownload = true;
                          } else {
                              fs.symlink(cachePath, mediaPath, 'file', ... exit(1) unless EEXIST ...);
                              if (responseHeaders.width == width) {
                                  redisClient.hdel(redisCachedMediaToCheckDatabase, filenameBase);
                              } else {
                                  redisClient.hset(redisCachedMediaToCheckDatabase, filenameBase, width, ...);
                              }
                              callback();
                          }
                      } else { toDownload = true; }
                      if (toDownload) {
                          downloadFile(url, cachePath, true, function (error) {
                              if (error) { callback();
                              } else {
                                  fs.symlink(cachePath, mediaPath, 'file', function (error) {
                                      ... exit(1) unless EEXIST ...
                                      fs.writeFile(cacheHeadersPath, JSON.stringify({width: width}),
                                          function (error) { ... exit(1) on error ... callback(); });
                                  });
                              }
                          });
                      } else { printLog('Cache hit for ' + url); }
                  }
              });
          } else {
              // We already have this image with a resolution equal or higher to what we need
              callback();
          }
      });
  }
  \<close>
  \<^verbatim>\<open>
  function downloadFile( url, path, force, callback ) {
      fs.stat(path, function (error) {
          if (error && !force) { ...
          } else {
              downloadContent(url, function (content, responseHeaders) {
                  fs.writeFile(path, content, function (error) {
                      if (error) { ... process.exit(1);
                      } else { optimizationQueue.push({path: path, size: content.length}); }
                      callback(error, responseHeaders);
                  });
              });
          }
      });
  }

  const downloadFileQueue = async.queue( function ( url, finished ) {
      if (url) { downloadFileAndCache(url, finished); } else { finished(); }
  }, speed * 5 );
  \<close>
  Nothing here waits: \<open>hget\<close>, \<open>hset\<close>, \<open>fs.stat\<close>, the download, \<open>fs.writeFile\<close> and
  \<open>fs.symlink\<close> each take a callback that runs when the answer is there, and the queue has
  up to \<open>speed * 5\<close> invocations in flight. So an invocation is a sequence of callbacks,
  and between two of them callbacks of other invocations may run. The model has one step per
  callback (\<open>advance\<close>); a run of the queue is any sequence of such steps of the invocations
  in flight (\<open>run\<close>).

  The world is the key/value store (the media database and the database of cached media to
  check), the files of the cache, and a log of what was done: the URLs handed to
  \<open>downloadContent\<close>, the files written, the symbolic links made, the number of callbacks
  of \<open>downloadFileAndCache\<close>. All commands to the store go over one connection and are
  answered in the order in which they were sent, so a command takes effect in the step of its
  answer. The environment gives the match of \<open>mediaRegex\<close> (the groups 2, 4, 5, 6, 7), the
  two paths, the body a fetch returns, and whether the store or the file system fail.
  Updates of file times are left out, and so is the answer to the \<open>hset\<close> on the database
  of cached media to check.
\<close>

record parts =
  p2 :: jsstring
  p4 :: jsstring
  p5 :: jsstring
  p6 :: jsstring
  p7 :: jsstring

datatype cache_file = BodyFile body | HeaderFile "nat option" | OtherFile

datatype abort = Thrown js_error | ProcessExit nat

record world =
  mediaIds :: "jsstring \<rightharpoonup> nat"
  cachedMediaToCheck :: "jsstring \<rightharpoonup> nat"
  fs :: "jsstring \<rightharpoonup> cache_file"
  http :: "jsstring list"
  writes :: "jsstring list"
  symlinks :: "(jsstring \<times> jsstring) list"
  optimizationQueue :: "jsstring list"
  callbackCount :: nat

record dl_env =
  regexExec :: "jsstring \<Rightarrow> parts option"
  mediaPathOf :: "jsstring \<Rightarrow> jsstring"
  cachePathOf :: "jsstring \<Rightarrow> jsstring \<Rightarrow> jsstring"
  fetch :: "jsstring \<Rightarrow> body"
  hgetError :: bool
  hsetError :: bool
  symlinkError :: bool
  writeError :: bool

definition INFINITY_WIDTH :: nat where
  "INFINITY_WIDTH = 9999999"

text \<open>\<open>x || y\<close> on strings: the empty string is falsy.\<close>

definition or_else :: "jsstring \<Rightarrow> jsstring \<Rightarrow> jsstring" where
  "or_else x y = (if x = [] then y else x)"

definition filenameBaseOf :: "parts \<Rightarrow> jsstring" where
  "filenameBaseOf parts =
     (if length (p2 parts) > length (p5 parts) then p2 parts
      else p5 parts @ or_else (p6 parts) (js ''.svg'') @ or_else (p7 parts) [])"

text \<open>
  Group 4 matched \<open>\d+px-\<close> or nothing. Without the \<open>px-\<close> it is a string of decimal
  digits or empty; \<open>parseInt\<close> reads the leading digits, and gives \<open>NaN\<close> when there are
  none. \<open>NaN\<close> and 0 are falsy, so the width is then \<open>INFINITY_WIDTH\<close>.
\<close>

definition isDigit :: "code_unit \<Rightarrow> bool" where
  "isDigit c \<longleftrightarrow> 0x30 \<le> c \<and> c \<le> 0x39"

fun remove_px :: "jsstring \<Rightarrow> jsstring" where
  "remove_px (a # b # c # rest) =
     (if a = 0x70 \<and> b = 0x78 \<and> c = 0x2D then remove_px rest else a # remove_px (b # c # rest))"
| "remove_px s = s"

definition digitsValue :: "jsstring \<Rightarrow> nat" where
  "digitsValue ds = foldl (\<lambda>n c. 10 * n + (unat c - 48)) 0 ds"

definition parseInt :: "jsstring \<Rightarrow> nat option" where
  "parseInt s = (let ds = takeWhile isDigit s in if ds = [] then None else Some (digitsValue ds))"

definition widthOf :: "parts \<Rightarrow> nat" where
  "widthOf parts =
     (case parseInt (remove_px (p4 parts)) of
        None \<Rightarrow> INFINITY_WIDTH
      | Some n \<Rightarrow> if n = 0 then INFINITY_WIDTH else n)"

text \<open>
  What an invocation waits for: the answer to \<open>hget\<close>, the answer to \<open>hset\<close>, the
  callback of \<open>fs.stat\<close>, the content, the callback of \<open>fs.writeFile\<close> for the body, of
  \<open>fs.symlink\<close>, of \<open>fs.writeFile\<close> for the header; on a cache hit the callback of
  \<open>fs.symlink\<close>, after the callback of the invocation; or nothing any more.
\<close>

datatype phase =
  Lookup | Store | Stat | Content | BodyWrite | Symlink | HeaderWrite | CacheLink | Done

record invocation =
  inv_url :: jsstring
  inv_base :: jsstring
  inv_width :: nat
  inv_phase :: phase

text \<open>The first two lines of the function: \<open>filenameBase\<close> and \<open>width\<close>, or the exception
  (\<open>decodeURI\<close> throws on a malformed URL, and \<open>parts[2]\<close> on \<open>null\<close>).\<close>

definition request :: "dl_env \<Rightarrow> jsstring \<Rightarrow> js_error + jsstring \<times> nat" where
  "request env u =
     (case decodeURI u of
        Inl error \<Rightarrow> Inl error
      | Inr decoded \<Rightarrow>
          (case regexExec env decoded of
             None \<Rightarrow> Inl TypeError
           | Some parts \<Rightarrow> Inr (filenameBaseOf parts, widthOf parts)))"

definition start :: "dl_env \<Rightarrow> jsstring \<Rightarrow> js_error + invocation" where
  "start env u =
     (case request env u of
        Inl error \<Rightarrow> Inl error
      | Inr (filenameBase, width) \<Rightarrow>
          Inr \<lparr>inv_url = u, inv_base = filenameBase, inv_width = width, inv_phase = Lookup\<rparr>)"

text \<open>One callback of an invocation.\<close>

definition advance :: "dl_env \<Rightarrow> invocation \<Rightarrow> world \<Rightarrow> abort + invocation \<times> world" where
  "advance env job w =
     (let filenameBase = inv_base job;
          width = inv_width job;
          mediaPath = mediaPathOf env (inv_url job);
          cachePath = cachePathOf env filenameBase (inv_url job);
          cacheHeadersPath = cachePath @ js ''.h''
      in case inv_phase job of
           Lookup \<Rightarrow>
             if hgetError env \<or>
                (case mediaIds w filenameBase of None \<Rightarrow> True | Some r_width \<Rightarrow> r_width < width)
             then Inr (job\<lparr>inv_phase := Store\<rparr>, w)
             else Inr (job\<lparr>inv_phase := Done\<rparr>, w\<lparr>callbackCount := callbackCount w + 1\<rparr>)
         | Store \<Rightarrow>
             if hsetError env then Inl (ProcessExit 1)
             else
               let w1 = w\<lparr>mediaIds := (mediaIds w)(filenameBase \<mapsto> width)\<rparr>;
                   responseHeaders =
                     (if fs w1 cacheHeadersPath \<noteq> None \<and> fs w1 cachePath \<noteq> None
                      then (case fs w1 cacheHeadersPath of
                              Some (HeaderFile hw) \<Rightarrow> Some hw
                            | _ \<Rightarrow> None)
                      else None);
                   toDownload =
                     (case responseHeaders of
                        None \<Rightarrow> True
                      | Some None \<Rightarrow> False
                      | Some (Some hw) \<Rightarrow> hw < width)
               in if toDownload then Inr (job\<lparr>inv_phase := Stat\<rparr>, w1)
                  else Inr (job\<lparr>inv_phase := CacheLink\<rparr>,
                            w1\<lparr>cachedMediaToCheck :=
                                  (if responseHeaders = Some (Some width)
                                   then (cachedMediaToCheck w1)(filenameBase := None)
                                   else (cachedMediaToCheck w1)(filenameBase \<mapsto> width)),
                                callbackCount := callbackCount w1 + 1\<rparr>)
         | Stat \<Rightarrow> Inr (job\<lparr>inv_phase := Content\<rparr>, w\<lparr>http := http w @ [inv_url job]\<rparr>)
         | Content \<Rightarrow> Inr (job\<lparr>inv_phase := BodyWrite\<rparr>, w)
         | BodyWrite \<Rightarrow>
             if writeError env then Inl (ProcessExit 1)
             else Inr (job\<lparr>inv_phase := Symlink\<rparr>,
                       w\<lparr>fs := (fs w)(cachePath \<mapsto> BodyFile (fetch env (inv_url job))),
                         writes := writes w @ [cachePath],
                         optimizationQueue := optimizationQueue w @ [cachePath]\<rparr>)
         | Symlink \<Rightarrow>
             if symlinkError env then Inl (ProcessExit 1)
             else Inr (job\<lparr>inv_phase := HeaderWrite\<rparr>,
                       w\<lparr>symlinks := symlinks w @ [(cachePath, mediaPath)]\<rparr>)
         | HeaderWrite \<Rightarrow>
             if writeError env then Inl (ProcessExit 1)
             else Inr (job\<lparr>inv_phase := Done\<rparr>,
                       w\<lparr>fs := (fs w)(cacheHeadersPath \<mapsto> HeaderFile (Some width)),
                         writes := writes w @ [cacheHeadersPath],
                         callbackCount := callbackCount w + 1\<rparr>)
         | CacheLink \<Rightarrow>
             if symlinkError env then Inl (ProcessExit 1)
             else Inr (job\<lparr>inv_phase := Done\<rparr>,
                       w\<lparr>symlinks := symlinks w @ [(cachePath, mediaPath)]\<rparr>)
         | Done \<Rightarrow> Inr (job, w))"

subsection \<open>The download queue\<close>

text \<open>
  The queue holds the URLs pushed and not yet started, and the invocations started. A
  worker is free again when the callback of its invocation has been called. An event is the
  start of the next URL, if a worker is free, or the next callback of the \<open>k\<close>-th
  invocation.
\<close>

record queue_state =
  q_world :: world
  q_pending :: "jsstring list"
  q_running :: "invocation list"

datatype event = Start | Reply nat

definition inFlight :: "invocation \<Rightarrow> bool" where
  "inFlight job \<longleftrightarrow> inv_phase job \<noteq> CacheLink \<and> inv_phase job \<noteq> Done"

definition step :: "dl_env \<Rightarrow> nat \<Rightarrow> event \<Rightarrow> queue_state \<Rightarrow> abort + queue_state" where
  "step env concurrency ev q =
     (case ev of
        Start \<Rightarrow>
          (case q_pending q of
             [] \<Rightarrow> Inr q
           | u # us \<Rightarrow>
               if length (filter inFlight (q_running q)) < concurrency
               then if u = [] then Inr (q\<lparr>q_pending := us\<rparr>)
                    else (case start env u of
                            Inl error \<Rightarrow> Inl (Thrown error)
                          | Inr job \<Rightarrow> Inr (q\<lparr>q_pending := us, q_running := q_running q @ [job]\<rparr>))
               else Inr q)
      | Reply k \<Rightarrow>
          if k < length (q_running q)
          then (case advance env (q_running q ! k) (q_world q) of
                  Inl a \<Rightarrow> Inl a
                | Inr (job', w') \<Rightarrow> Inr (q\<lparr>q_world := w', q_running := (q_running q)[k := job']\<rparr>))
          else Inr q)"

fun run :: "dl_env \<Rightarrow> nat \<Rightarrow> event list \<Rightarrow> queue_state \<Rightarrow> abort + queue_state" where
  "run env concurrency [] q = Inr q"
| "run env concurrency (ev # evs) q =
     (case step env concurrency ev q of
        Inl a \<Rightarrow> Inl a
      | Inr q' \<Rightarrow> run env concurrency evs q')"

subsection \<open>One invocation at a time\<close>

text \<open>
  \<open>finish\<close> lets an invocation run until nothing of it is left to do, with no callback
  of another invocation in between; \<open>downloadFileAndCache env u w\<close> is a whole invocation
  run in that way, and \<open>downloadAll\<close> a list of them, each started when the one before is
  through. It ends because every callback takes the invocation nearer to its end.
\<close>

fun rank :: "phase \<Rightarrow> nat" where
  "rank Lookup = 7"
| "rank Store = 6"
| "rank Stat = 5"
| "rank Content = 4"
| "rank BodyWrite = 3"
| "rank Symlink = 2"
| "rank HeaderWrite = 1"
| "rank CacheLink = 1"
| "rank Done = 0"

lemma advance_rank:
  "advance env job w = Inr (job', w') \<Longrightarrow> inv_phase job \<noteq> Done \<Longrightarrow>
   rank (inv_phase job') < rank (inv_phase job)"
  by (cases "inv_phase job") (auto simp: advance_def Let_def split: if_splits)

function finish :: "dl_env \<Rightarrow> invocation \<Rightarrow> world \<Rightarrow> abort + world" where
  "finish env job w =
     (if inv_phase job = Done then Inr w
      else (case advance env job w of
              Inl a \<Rightarrow> Inl a
            | Inr (job', w') \<Rightarrow> finish env job' w'))"
  by pat_completeness auto
termination
proof (relation "measure (\<lambda>(env, job, w). rank (inv_phase job))", goal_cases)
  case 1
  then show ?case by simp
next
  case (2 env job w x job' w')
  then show ?case using advance_rank [of env job w job' w'] by auto
qed

declare finish.simps [simp del]

definition downloadFileAndCache :: "dl_env \<Rightarrow> jsstring \<Rightarrow> world \<Rightarrow> abort + world" where
  "downloadFileAndCache env u w =
     (case start env u of
        Inl error \<Rightarrow> Inl (Thrown error)
      | Inr job \<Rightarrow> finish env job w)"

fun downloadAll :: "dl_env \<Rightarrow> jsstring list \<Rightarrow> world \<Rightarrow> abort + world" where
  "downloadAll env [] w = Inr w"
| "downloadAll env (u # us) w =
     (case downloadFileAndCache env u w of
        Inl a \<Rightarrow> Inl a
      | Inr w' \<Rightarrow> downloadAll env us w')"

definition emptyWorld :: world where
  "emptyWorld = \<lparr>mediaIds = Map.empty, cachedMediaToCheck = Map.empty, fs = Map.empty,
     http = [], writes = [], symlinks = [], optimizationQueue = [], callbackCount = 0\<rparr>"

lemma js_append: "js a @ js b = js (a @ b)"
  by (simp add: js_def)
subsection \<open>What an invocation does when a width is recorded\<close>

lemma advance_skip:
  "\<not> hgetError env \<Longrightarrow> inv_phase job = Lookup \<Longrightarrow>
   mediaIds w (inv_base job) = Some r \<Longrightarrow> inv_width job \<le> r \<Longrightarrow>
   advance env job w =
     Inr (job\<lparr>inv_phase := Done\<rparr>, w\<lparr>callbackCount := callbackCount w + 1\<rparr>)"
  by (simp add: advance_def)

lemma advance_done: "inv_phase job = Done \<Longrightarrow> advance env job w = Inr (job, w)"
  by (simp add: advance_def)

lemma advance_fields:
  "advance env job w = Inr (job', w') \<Longrightarrow>
   inv_url job' = inv_url job \<and> inv_base job' = inv_base job \<and> inv_width job' = inv_width job"
  by (cases "inv_phase job") (auto simp: advance_def Let_def split: if_splits)

lemma advance_mediaIds:
  "advance env job w = Inr (job', w') \<Longrightarrow> inv_phase job \<noteq> Store \<Longrightarrow>
   mediaIds w' = mediaIds w \<and> inv_phase job' \<noteq> Store \<and> inv_phase job' \<noteq> Lookup"
  if "inv_phase job \<noteq> Lookup"
  using that by (cases "inv_phase job") (auto simp: advance_def Let_def split: if_splits)

lemma finish_mediaIds:
  "finish env job w = Inr w' \<Longrightarrow> inv_phase job \<noteq> Lookup \<Longrightarrow> inv_phase job \<noteq> Store \<Longrightarrow>
   mediaIds w' = mediaIds w"
proof (induction env job w rule: finish.induct)
  case (1 env job w)
  show ?case
  proof (cases "inv_phase job = Done")
    case True
    then show ?thesis using "1.prems" by (simp add: finish.simps [of env job w])
  next
    case False
    from "1.prems" False obtain job1 w1 where a: "advance env job w = Inr (job1, w1)"
      and c: "finish env job1 w1 = Inr w'"
      by (auto simp: finish.simps [of env job w] split: sum.splits)
    from advance_mediaIds [OF "1.prems"(2) a "1.prems"(3)]
    have m: "mediaIds w1 = mediaIds w" "inv_phase job1 \<noteq> Store" "inv_phase job1 \<noteq> Lookup"
      by simp_all
    from "1.IH" [OF False a refl c m(3) m(2)] m(1) show ?thesis by simp
  qed
qed

lemma finish_skip:
  "\<not> hgetError env \<Longrightarrow> inv_phase job = Lookup \<Longrightarrow>
   mediaIds w (inv_base job) = Some r \<Longrightarrow> inv_width job \<le> r \<Longrightarrow>
   finish env job w = Inr (w\<lparr>callbackCount := callbackCount w + 1\<rparr>)"
  by (simp add: finish.simps [of env job w] advance_skip
      finish.simps [of env "job\<lparr>inv_phase := Done\<rparr>"])

text \<open>An invocation run on its own: when it is through, a width at least its own is
  recorded for its base, and no recorded width has become smaller.\<close>

lemma finish_records:
  assumes "\<not> hgetError env" and "inv_phase job = Lookup" and "finish env job w = Inr w'"
  shows "\<exists>r. mediaIds w' (inv_base job) = Some r \<and> inv_width job \<le> r"
    and "mediaIds w b = Some r0 \<Longrightarrow> \<exists>r. mediaIds w' b = Some r \<and> r0 \<le> r"
proof -
  show "\<exists>r. mediaIds w' (inv_base job) = Some r \<and> inv_width job \<le> r"
  proof (cases "case mediaIds w (inv_base job) of None \<Rightarrow> True | Some r \<Rightarrow> r < inv_width job")
    case False
    then obtain r where r: "mediaIds w (inv_base job) = Some r" "inv_width job \<le> r"
      by (auto split: option.splits)
    from finish_skip [OF assms(1,2) r] assms(3) r show ?thesis by auto
  next
    case True
    then have a: "advance env job w = Inr (job\<lparr>inv_phase := Store\<rparr>, w)"
      using assms(2) by (simp add: advance_def)
    with assms(2,3) have c: "finish env (job\<lparr>inv_phase := Store\<rparr>) w = Inr w'"
      by (simp add: finish.simps [of env job w])
    then obtain job2 w2 where
      a2: "advance env (job\<lparr>inv_phase := Store\<rparr>) w = Inr (job2, w2)"
      and c2: "finish env job2 w2 = Inr w'"
      by (auto simp: finish.simps [of env "job\<lparr>inv_phase := Store\<rparr>" w] split: sum.splits)
    from a2 have "mediaIds w2 = (mediaIds w)(inv_base job \<mapsto> inv_width job)"
      and "inv_phase job2 \<noteq> Lookup" "inv_phase job2 \<noteq> Store"
      by (auto simp: advance_def Let_def split: if_splits)
    with finish_mediaIds [OF c2] show ?thesis by simp
  qed
next
  assume b: "mediaIds w b = Some r0"
  show "\<exists>r. mediaIds w' b = Some r \<and> r0 \<le> r"
  proof (cases "case mediaIds w (inv_base job) of None \<Rightarrow> True | Some r \<Rightarrow> r < inv_width job")
    case False
    then obtain r where r: "mediaIds w (inv_base job) = Some r" "inv_width job \<le> r"
      by (auto split: option.splits)
    from finish_skip [OF assms(1,2) r] assms(3) b show ?thesis by auto
  next
    case True
    then have a: "advance env job w = Inr (job\<lparr>inv_phase := Store\<rparr>, w)"
      using assms(2) by (simp add: advance_def)
    with assms(2,3) have c: "finish env (job\<lparr>inv_phase := Store\<rparr>) w = Inr w'"
      by (simp add: finish.simps [of env job w])
    then obtain job2 w2 where
      a2: "advance env (job\<lparr>inv_phase := Store\<rparr>) w = Inr (job2, w2)"
      and c2: "finish env job2 w2 = Inr w'"
      by (auto simp: finish.simps [of env "job\<lparr>inv_phase := Store\<rparr>" w] split: sum.splits)
    from a2 have "mediaIds w2 = (mediaIds w)(inv_base job \<mapsto> inv_width job)"
      and "inv_phase job2 \<noteq> Lookup" "inv_phase job2 \<noteq> Store"
      by (auto simp: advance_def Let_def split: if_splits)
    with finish_mediaIds [OF c2] have "mediaIds w' = (mediaIds w)(inv_base job \<mapsto> inv_width job)"
      by simp
    with True b show ?thesis by (auto split: option.splits)
  qed
qed

lemma start_fields:
  "start env u = Inr job \<Longrightarrow>
   inv_phase job = Lookup \<and> inv_url job = u \<and> request env u = Inr (inv_base job, inv_width job)"
  by (auto simp: start_def split: sum.splits)

lemma downloadFileAndCache_skip:
  "\<not> hgetError env \<Longrightarrow> request env u = Inr (filenameBase, width) \<Longrightarrow>
   mediaIds w filenameBase = Some r \<Longrightarrow> width \<le> r \<Longrightarrow>
   downloadFileAndCache env u w = Inr (w\<lparr>callbackCount := callbackCount w + 1\<rparr>)"
  by (simp add: downloadFileAndCache_def start_def finish_skip)

lemma downloadFileAndCache_records:
  assumes "\<not> hgetError env" and "downloadFileAndCache env u w = Inr w'"
  shows "request env u = Inr (filenameBase, width) \<Longrightarrow>
         \<exists>r. mediaIds w' filenameBase = Some r \<and> width \<le> r"
    and "mediaIds w b = Some r0 \<Longrightarrow> \<exists>r. mediaIds w' b = Some r \<and> r0 \<le> r"
proof -
  from assms(2) obtain job where s: "start env u = Inr job" and c: "finish env job w = Inr w'"
    by (auto simp: downloadFileAndCache_def split: sum.splits)
  note f = start_fields [OF s]
  show "request env u = Inr (filenameBase, width) \<Longrightarrow>
      \<exists>r. mediaIds w' filenameBase = Some r \<and> width \<le> r"
    using finish_records(1) [OF assms(1) _ c] f by auto
  show "mediaIds w b = Some r0 \<Longrightarrow> \<exists>r. mediaIds w' b = Some r \<and> r0 \<le> r"
    using finish_records(2) [OF assms(1) _ c] f by auto
qed

lemma downloadAll_append:
  "downloadAll env (us @ vs) w =
     (case downloadAll env us w of Inl a \<Rightarrow> Inl a | Inr w' \<Rightarrow> downloadAll env vs w')"
  by (induction us arbitrary: w) (auto split: sum.splits)

lemma downloadAll_keeps:
  "\<not> hgetError env \<Longrightarrow> downloadAll env us w = Inr w' \<Longrightarrow> mediaIds w b = Some r0 \<Longrightarrow>
   \<exists>r. mediaIds w' b = Some r \<and> r0 \<le> r"
proof (induction us arbitrary: w r0)
  case Nil
  then show ?case by simp
next
  case (Cons u us)
  from Cons.prems(2) obtain w1 where 1: "downloadFileAndCache env u w = Inr w1"
    and 2: "downloadAll env us w1 = Inr w'"
    by (auto split: sum.splits)
  from downloadFileAndCache_records(2) [OF Cons.prems(1) 1 Cons.prems(3)]
  obtain r1 where r1: "mediaIds w1 b = Some r1" "r0 \<le> r1" by auto
  from Cons.IH [OF Cons.prems(1) 2 r1(1)] r1(2) show ?case by auto
qed

lemma downloadAll_records:
  "\<not> hgetError env \<Longrightarrow> downloadAll env us w = Inr w' \<Longrightarrow> u0 \<in> set us \<Longrightarrow>
   request env u0 = Inr (filenameBase, width0) \<Longrightarrow>
   \<exists>r. mediaIds w' filenameBase = Some r \<and> width0 \<le> r"
proof (induction us arbitrary: w)
  case Nil
  then show ?case by simp
next
  case (Cons u us)
  from Cons.prems(2) obtain w1 where 1: "downloadFileAndCache env u w = Inr w1"
    and 2: "downloadAll env us w1 = Inr w'"
    by (auto split: sum.splits)
  show ?case
  proof (cases "u0 \<in> set us")
    case True
    from Cons.IH [OF Cons.prems(1) 2 True Cons.prems(4)] show ?thesis .
  next
    case False
    with Cons.prems(3) have "u0 = u" by simp
    with downloadFileAndCache_records(1) [OF Cons.prems(1) 1] Cons.prems(4)
    obtain r1 where r1: "mediaIds w1 filenameBase = Some r1" "width0 \<le> r1" by auto
    from downloadAll_keeps [OF Cons.prems(1) 2 r1(1)] r1(2) show ?thesis by auto
  qed
qed

lemma downloadAll_later_not_wider:
  assumes "\<not> hgetError env" and "downloadAll env us w0 = Inr w"
    and "request env u = Inr (filenameBase, width)"
    and "u0 \<in> set us" and "request env u0 = Inr (filenameBase, width0)" and "width \<le> width0"
  shows "downloadAll env (us @ [u]) w0 = Inr (w\<lparr>callbackCount := callbackCount w + 1\<rparr>)"
proof -
  from downloadAll_records [OF assms(1,2,4,5)]
  obtain r where r: "mediaIds w filenameBase = Some r" "width0 \<le> r" by auto
  then have "downloadFileAndCache env u w = Inr (w\<lparr>callbackCount := callbackCount w + 1\<rparr>)"
    using downloadFileAndCache_skip [OF assms(1,3), of w r] assms(6) by simp
  then show ?thesis by (simp add: downloadAll_append assms(2))
qed
text \<open>In a run of the queue, the callbacks of one invocation one after the other, with
  nothing in between, are \<open>finish\<close>.\<close>

lemma advance_shape:
  "advance env job w = Inr (job', w') \<Longrightarrow> job'\<lparr>inv_phase := Done\<rparr> = job\<lparr>inv_phase := Done\<rparr>"
  by (cases "inv_phase job") (auto simp: advance_def Let_def split: if_splits)

lemma run_finish:
  "k < length (q_running q) \<Longrightarrow> rank (inv_phase (q_running q ! k)) \<le> n \<Longrightarrow>
   run env concurrency (replicate n (Reply k)) q =
     (case finish env (q_running q ! k) (q_world q) of
        Inl a \<Rightarrow> Inl a
      | Inr w' \<Rightarrow>
          Inr (q\<lparr>q_world := w',
                 q_running := (q_running q)[k := (q_running q ! k)\<lparr>inv_phase := Done\<rparr>]\<rparr>))"
proof (induction n arbitrary: q)
  case 0
  then have d: "inv_phase (q_running q ! k) = Done"
    by (cases "inv_phase (q_running q ! k)") simp_all
  then have "(q_running q)[k := (q_running q ! k)\<lparr>inv_phase := Done\<rparr>] = q_running q"
    by (metis list_update_id invocation.update_convs(4) invocation.surjective
        invocation.select_convs(4) invocation.simps)
  then show ?case using d by (simp add: finish.simps [of env "q_running q ! k"])
next
  case (Suc n)
  show ?case
  proof (cases "inv_phase (q_running q ! k) = Done")
    case True
    then have e: "(q_running q ! k)\<lparr>inv_phase := Done\<rparr> = q_running q ! k" by simp
    have s: "step env concurrency (Reply k) q = Inr q"
      using Suc.prems(1) True by (simp add: step_def advance_done)
    from Suc.IH [of q] Suc.prems(1) True show ?thesis by (simp add: s)
  next
    case False
    show ?thesis
    proof (cases "advance env (q_running q ! k) (q_world q)")
      case (Inl a)
      then show ?thesis
        using False Suc.prems(1) by (simp add: step_def finish.simps [of env "q_running q ! k"])
    next
      case (Inr p)
      obtain job' w' where p: "p = (job', w')" by (cases p)
      let ?q = "q\<lparr>q_world := w', q_running := (q_running q)[k := job']\<rparr>"
      have s: "step env concurrency (Reply k) q = Inr ?q"
        using Suc.prems(1) Inr p by (simp add: step_def)
      have r: "rank (inv_phase job') \<le> n"
        using advance_rank [of env "q_running q ! k" "q_world q" job' w'] Inr p False Suc.prems(2)
        by simp
      have "run env concurrency (replicate n (Reply k)) ?q =
          (case finish env (q_running ?q ! k) (q_world ?q) of
             Inl a \<Rightarrow> Inl a
           | Inr w'' \<Rightarrow>
               Inr (?q\<lparr>q_world := w'',
                      q_running := (q_running ?q)[k := (q_running ?q ! k)\<lparr>inv_phase := Done\<rparr>]\<rparr>))"
        by (rule Suc.IH) (use Suc.prems(1) r in simp_all)
      then show ?thesis
        using Suc.prems(1) False Inr p advance_shape [of env "q_running q ! k" "q_world q" job' w']
        by (simp add: s finish.simps [of env "q_running q ! k"] split: sum.splits)
    qed
  qed
qed
subsection \<open>Two thumbnails of one file\<close>

text \<open>The two thumbnails of one file, and an environment for them: the match of
  \<open>mediaRegex\<close> on each URL, an empty cache, no failure.\<close>

definition url120 :: jsstring where
  "url120 = js ''http://upload.wikimedia.org/wikipedia/commons/thumb/a/ab/Foo.jpg/120px-Foo.jpg''"

definition url300 :: jsstring where
  "url300 = js ''http://upload.wikimedia.org/wikipedia/commons/thumb/a/ab/Foo.jpg/300px-Foo.jpg''"

definition fooEnv :: dl_env where
  "fooEnv =
     \<lparr>regexExec = (\<lambda>u.
         if u = url120
         then Some \<lparr>p2 = js ''Foo.jpg'', p4 = js ''120px-'', p5 = js ''Foo'', p6 = js ''.jpg'', p7 = []\<rparr>
         else if u = url300
         then Some \<lparr>p2 = js ''Foo.jpg'', p4 = js ''300px-'', p5 = js ''Foo'', p6 = js ''.jpg'', p7 = []\<rparr>
         else None),
       mediaPathOf = (\<lambda>u. js ''out/m/Foo.jpg''),
       cachePathOf = (\<lambda>b u. js ''cac/m/0123456789abcdef0123.jpg''),
       fetch = (\<lambda>u. Buffer []),
       hgetError = False, hsetError = False, symlinkError = False, writeError = False\<rparr>"

lemma decodeURI_url120: "decodeURI url120 = Inr url120"
  by (simp add: url120_def decode_eval)

lemma decodeURI_url300: "decodeURI url300 = Inr url300"
  by (simp add: url300_def decode_eval)

lemma url120_neq_url300: "url120 \<noteq> url300"
  by (simp add: url120_def url300_def js_def)

lemma widthOf_120:
  "widthOf \<lparr>p2 = js ''Foo.jpg'', p4 = js ''120px-'', p5 = js ''Foo'', p6 = js ''.jpg'', p7 = []\<rparr> = 120"
  by (simp add: widthOf_def parseInt_def digitsValue_def isDigit_def js_def)

lemma widthOf_300:
  "widthOf \<lparr>p2 = js ''Foo.jpg'', p4 = js ''300px-'', p5 = js ''Foo'', p6 = js ''.jpg'', p7 = []\<rparr> = 300"
  by (simp add: widthOf_def parseInt_def digitsValue_def isDigit_def js_def)

lemma filenameBaseOf_foo:
  "filenameBaseOf \<lparr>p2 = js ''Foo.jpg'', p4 = x, p5 = js ''Foo'', p6 = js ''.jpg'', p7 = []\<rparr> = js ''Foo.jpg''"
  by (simp add: filenameBaseOf_def js_def)

lemma request_url120: "request fooEnv url120 = Inr (js ''Foo.jpg'', 120)"
  by (simp add: request_def decodeURI_url120 fooEnv_def widthOf_120 filenameBaseOf_foo)

lemma request_url300: "request fooEnv url300 = Inr (js ''Foo.jpg'', 300)"
  by (simp add: request_def decodeURI_url300 fooEnv_def url120_neq_url300 [symmetric]
      widthOf_300 filenameBaseOf_foo)

lemma start_url120:
  "start fooEnv url120 =
     Inr \<lparr>inv_url = url120, inv_base = js ''Foo.jpg'', inv_width = 120, inv_phase = Lookup\<rparr>"
  by (simp add: start_def request_url120)

lemma start_url300:
  "start fooEnv url300 =
     Inr \<lparr>inv_url = url300, inv_base = js ''Foo.jpg'', inv_width = 300, inv_phase = Lookup\<rparr>"
  by (simp add: start_def request_url300)

lemma fooEnv_fields:
  "mediaPathOf fooEnv u = js ''out/m/Foo.jpg''"
  "cachePathOf fooEnv b u = js ''cac/m/0123456789abcdef0123.jpg''"
  "fetch fooEnv u = Buffer []"
  "\<not> hgetError fooEnv" "\<not> hsetError fooEnv" "\<not> symlinkError fooEnv" "\<not> writeError fooEnv"
  by (simp_all add: fooEnv_def)

lemmas foo_eval = downloadFileAndCache_def start_url120 start_url300 finish.simps advance_def
  fooEnv_fields emptyWorld_def js_append Let_def

lemma http_120_then_300:
  "map_sum id http (downloadAll fooEnv [url120, url300] emptyWorld) = Inr [url120, url300]"
  by (simp add: foo_eval)

lemma http_300_then_120:
  "map_sum id http (downloadAll fooEnv [url300, url120] emptyWorld) = Inr [url300]"
  by (simp add: foo_eval)

text \<open>
  Two invocations in flight together: both are started, and both lookups are answered
  before either \<open>hset\<close> is. Each finds nothing recorded, so both thumbnails are fetched,
  the wider one first; in the end the width recorded is 120.
\<close>

lemma http_in_flight_together:
  "map_sum id (\<lambda>q. (http (q_world q), mediaIds (q_world q) (js ''Foo.jpg'')))
     (run fooEnv 5 [Start, Start, Reply 0, Reply 1, Reply 0, Reply 1, Reply 0, Reply 1]
        \<lparr>q_world = emptyWorld, q_pending = [url300, url120], q_running = []\<rparr>) =
     Inr ([url300, url120], Some 120)"
proof -
  have u: "url300 \<noteq> []" "url120 \<noteq> []"
    by (simp_all add: url300_def url120_def js_def)
  show ?thesis
    by (simp add: step_def u inFlight_def start_url120 start_url300 advance_def fooEnv_fields
        emptyWorld_def js_append Let_def)
qed



definition world300 :: world where
  "world300 =
     \<lparr>mediaIds = [js ''Foo.jpg'' \<mapsto> 300], cachedMediaToCheck = Map.empty,
      fs = [js ''cac/m/0123456789abcdef0123.jpg'' \<mapsto> BodyFile (Buffer []),
            js ''cac/m/0123456789abcdef0123.jpg.h'' \<mapsto> HeaderFile (Some 300)],
      http = [url300],
      writes = [js ''cac/m/0123456789abcdef0123.jpg'', js ''cac/m/0123456789abcdef0123.jpg.h''],
      symlinks = [(js ''cac/m/0123456789abcdef0123.jpg'', js ''out/m/Foo.jpg'')],
      optimizationQueue = [js ''cac/m/0123456789abcdef0123.jpg''],
      callbackCount = 1\<rparr>"

lemma downloadAll_url300: "downloadAll fooEnv [url300] emptyWorld = Inr world300"
  by (simp add: foo_eval world300_def)

section \<open>getMediaBase\<close>

text \<open>
  \<^verbatim>\<open>
  function getMediaBase( url, escape ) {
      let root;
      let parts = mediaRegex.exec(decodeURI(url));
      if (parts) {
          root = parts[2].length > parts[5].length ? parts[2]
                 : parts[5] + (parts[6] || ".svg") + ( parts[7] || '' );
      }
      if (!root) { printErr('Unable to parse media url \"' + url + '\"'); return; }
      function e(string) {
          return ( string === undefined ? undefined :
              escape ? encodeURIComponent(string) : string );
      }
      let filenameFirstVariant = parts[2];
      let filenameSecondVariant = parts[5] + (parts[6] || ".svg") + ( parts[7] || '' );
      let filename = util.myDecodeURIComponent(
          filenameFirstVariant.length > filenameSecondVariant.length ?
          filenameFirstVariant : filenameSecondVariant);
      /* Need to shorten the file due to filesystem limitations */
      if (unicodeCutter.getBinarySize(filename) > 249) {
          let ext = pathParser.extname(filename).split('.')[1] || '';
          let basename = filename.substring(0, filename.length - ext.length - 1) || '';
          filename = unicodeCutter.truncateToBinarySize(basename, 239 - ext.length)
              + crypto.createHash('md5').update(basename).digest('hex').substring(0, 2)
              + '.' + ext;
      }
      return mediaDirectory + '/' + e(filename);
  }
  \<close>
\<close>

subsection \<open>The libraries it calls\<close>

text \<open>
  \<open>Buffer.byteLength(s, 'utf8')\<close>: the size of the UTF-8 encoding of a string. A unit
  below 80 takes one byte, below 800 two, any other unit three (a lone surrogate is
  encoded as the replacement character FFFD), a surrogate pair four.
\<close>

fun cpSize :: "jsstring \<Rightarrow> nat" where
  "cpSize [c] = (if c < 0x80 then 1 else if c < 0x800 then 2 else 3)"
| "cpSize [h, l] = 4"
| "cpSize cp = 0"

definition byteLength :: "jsstring \<Rightarrow> nat" where
  "byteLength s = sum_list (map cpSize (codepoints s))"

text \<open>
  The package \<open>utf8-binary-cutter\<close>. \<open>getBinarySize\<close> is the byte length.
  \<open>truncateToBinarySize(string, binaryMaxSize)\<close> returns the string itself when it fits;
  otherwise it allocates a buffer of \<open>binaryMaxSize - 3\<close> bytes (a negative size is a
  RangeError), writes the string into it (\<open>Buffer.write\<close> stops before the first
  character that does not fit whole), reads the written bytes back as a string (a lone
  surrogate comes back as FFFD) and appends the ellipsis \<open>...\<close>.
\<close>

definition getBinarySize :: "jsstring \<Rightarrow> nat" where
  "getBinarySize s = byteLength s"

fun writeFit :: "nat \<Rightarrow> jsstring list \<Rightarrow> jsstring list" where
  "writeFit n [] = []"
| "writeFit n (cp # cps) = (if cpSize cp \<le> n then cp # writeFit (n - cpSize cp) cps else [])"

fun readBack :: "jsstring \<Rightarrow> jsstring" where
  "readBack [c] = (if isHighSurrogate c \<or> isLowSurrogate c then [0xFFFD] else [c])"
| "readBack cp = cp"

definition truncateToBinarySize :: "jsstring \<Rightarrow> int \<Rightarrow> js_error + jsstring" where
  "truncateToBinarySize s binaryMaxSize =
     (if int (getBinarySize s) \<le> binaryMaxSize then Inr s
      else if binaryMaxSize - 3 < 0 then Inl RangeError
      else Inr (concat (map readBack (writeFit (nat (binaryMaxSize - 3)) (codepoints s)))
                @ js ''...''))"

text \<open>
  \<open>path.extname\<close> (POSIX): one pass from the end of the path over its last component
  (slashes at the very end are skipped), remembering the last dot; the result runs from that
  dot to the end of the component, and is empty when there is no dot, when the dot is the
  first character of the component, or when the component is \<open>..\<close>. The loop
  \<^verbatim>\<open>for (var i = path.length - 1; i >= 0; --i)\<close> walks the reversed path: \<open>code\<close> is the
  unit at position \<open>i = n - 1\<close>, \<open>front\<close> the units in front of it, last first.
\<close>

record extname_state =
  startDot :: "nat option"
  startPart :: nat
  endPos :: "nat option"
  matchedSlash :: bool
  preDotState :: int

fun extname_loop :: "jsstring \<Rightarrow> nat \<Rightarrow> extname_state \<Rightarrow> extname_state" where
  "extname_loop [] n st = st"
| "extname_loop (code # front) n st =
     (let i = n - 1
      in if code = 0x2F
         then (if \<not> matchedSlash st then st\<lparr>startPart := i + 1\<rparr>
               else extname_loop front i st)
         else
           let st1 = (if endPos st = None then st\<lparr>matchedSlash := False, endPos := Some (i + 1)\<rparr>
                      else st);
               st2 = (if code = 0x2E
                      then (if startDot st1 = None then st1\<lparr>startDot := Some i\<rparr>
                            else if preDotState st1 \<noteq> 1 then st1\<lparr>preDotState := 1\<rparr>
                            else st1)
                      else if startDot st1 \<noteq> None then st1\<lparr>preDotState := - 1\<rparr>
                      else st1)
           in extname_loop front i st2)"

definition extname :: "jsstring \<Rightarrow> jsstring" where
  "extname path =
     (let st = extname_loop (rev path) (length path)
                 \<lparr>startDot = None, startPart = 0, endPos = None, matchedSlash = True,
                  preDotState = 0\<rparr>
      in case (startDot st, endPos st) of
           (Some sd, Some e) \<Rightarrow>
             if preDotState st = 0 \<or>
                (preDotState st = 1 \<and> sd = e - 1 \<and> sd = startPart st + 1)
             then []
             else take (e - sd) (drop sd path)
         | _ \<Rightarrow> [])"

text \<open>\<open>s.split('.')\<close>, and the element 1 of the result or the empty string
  (\<open>[1] || ''\<close>).\<close>

fun split_dot :: "jsstring \<Rightarrow> jsstring list" where
  "split_dot [] = [[]]"
| "split_dot (c # cs) =
     (if c = 0x2E then [] # split_dot cs
      else (case split_dot cs of piece # pieces \<Rightarrow> (c # piece) # pieces | [] \<Rightarrow> [[c]]))"

definition second_or_empty :: "jsstring list \<Rightarrow> jsstring" where
  "second_or_empty pieces = (case pieces of a # b # rest \<Rightarrow> b | _ \<Rightarrow> [])"

text \<open>
  \<open>encodeURIComponent\<close>: every code point is written in UTF-8, and every byte but the
  unreserved characters (letters, digits and \<open>- _ . ! ~ * ' ( )\<close>) becomes \<open>%XX\<close>; a lone
  surrogate is a URIError.
\<close>

definition hexUpper :: "nat \<Rightarrow> code_unit" where
  "hexUpper d = (if d < 10 then of_nat (48 + d) else of_nat (55 + d))"

definition percentByte :: "nat \<Rightarrow> jsstring" where
  "percentByte b = [0x25, hexUpper (b div 16), hexUpper (b mod 16)]"

definition uriUnreserved :: "code_unit \<Rightarrow> bool" where
  "uriUnreserved c \<longleftrightarrow>
     (0x41 \<le> c \<and> c \<le> 0x5A) \<or> (0x61 \<le> c \<and> c \<le> 0x7A) \<or> (0x30 \<le> c \<and> c \<le> 0x39) \<or>
     c \<in> set (js ''-_.!~*'') \<or> c = 0x27 \<or> c = 0x28 \<or> c = 0x29"

definition utf8Bytes :: "nat \<Rightarrow> nat list" where
  "utf8Bytes v =
     (if v < 0x80 then [v]
      else if v < 0x800 then [0xC0 + v div 64, 0x80 + v mod 64]
      else if v < 0x10000 then [0xE0 + v div 4096, 0x80 + (v div 64) mod 64, 0x80 + v mod 64]
      else [0xF0 + v div 262144, 0x80 + (v div 4096) mod 64, 0x80 + (v div 64) mod 64,
            0x80 + v mod 64])"

fun encodeCodepoint :: "jsstring \<Rightarrow> js_error + jsstring" where
  "encodeCodepoint [c] =
     (if uriUnreserved c then Inr [c]
      else if isHighSurrogate c \<or> isLowSurrogate c then Inl URIError
      else Inr (concat (map percentByte (utf8Bytes (unat c)))))"
| "encodeCodepoint [h, l] =
     Inr (concat (map percentByte
            (utf8Bytes ((unat h - 0xD800) * 0x400 + (unat l - 0xDC00) + 0x10000))))"
| "encodeCodepoint cp = Inr []"

fun encodeAll :: "jsstring list \<Rightarrow> js_error + jsstring" where
  "encodeAll [] = Inr []"
| "encodeAll (cp # cps) =
     (case encodeCodepoint cp of
        Inl error \<Rightarrow> Inl error
      | Inr s \<Rightarrow> prepend s (encodeAll cps))"

definition encodeURIComponent :: "jsstring \<Rightarrow> js_error + jsstring" where
  "encodeURIComponent s = encodeAll (codepoints s)"

subsection \<open>The function\<close>

text \<open>
  \<open>shortenFilename\<close> is the block under \<open>if (unicodeCutter.getBinarySize(filename) > 249)\<close>,
  \<open>mediaFilename\<close> the file name before it is escaped, \<open>getMediaBase\<close> the function.
  The MD5 digest (32 hexadecimal digits) is the crypto library's and the match of
  \<open>mediaRegex\<close> the regular expression engine's: both are parameters.
\<close>

definition mediaDirectory :: jsstring where
  "mediaDirectory = js ''m''"

definition shortenFilename :: "(jsstring \<Rightarrow> jsstring) \<Rightarrow> jsstring \<Rightarrow> js_error + jsstring" where
  "shortenFilename md5hex filename =
     (if getBinarySize filename > 249
      then let ext = second_or_empty (split_dot (extname filename));
               basename = take (length filename - length ext - 1) filename
           in (case truncateToBinarySize basename (239 - int (length ext)) of
                 Inl error \<Rightarrow> Inl error
               | Inr truncated \<Rightarrow> Inr (truncated @ take 2 (md5hex basename) @ js ''.'' @ ext))
      else Inr filename)"

definition secondVariant :: "parts \<Rightarrow> jsstring" where
  "secondVariant parts = p5 parts @ or_else (p6 parts) (js ''.svg'') @ or_else (p7 parts) []"

definition mediaFilename :: "(jsstring \<Rightarrow> jsstring) \<Rightarrow> parts \<Rightarrow> js_error + jsstring" where
  "mediaFilename md5hex parts =
     (case myDecodeURIComponent
             (if length (p2 parts) > length (secondVariant parts) then p2 parts
              else secondVariant parts) of
        Inl error \<Rightarrow> Inl error
      | Inr filename \<Rightarrow> shortenFilename md5hex filename)"

definition getMediaBase ::
  "(jsstring \<Rightarrow> parts option) \<Rightarrow> (jsstring \<Rightarrow> jsstring) \<Rightarrow> jsstring \<Rightarrow> bool \<Rightarrow>
     js_error + jsstring option" where
  "getMediaBase exec md5hex url escape =
     (case decodeURI url of
        Inl error \<Rightarrow> Inl error
      | Inr decoded \<Rightarrow>
     (case exec decoded of
        None \<Rightarrow> Inr None
      | Some parts \<Rightarrow>
          if filenameBaseOf parts = [] then Inr None
          else (case mediaFilename md5hex parts of
                  Inl error \<Rightarrow> Inl error
                | Inr filename \<Rightarrow>
                    (case (if escape then encodeURIComponent filename else Inr filename) of
                       Inl error \<Rightarrow> Inl error
                     | Inr escaped \<Rightarrow> Inr (Some (mediaDirectory @ js ''/'' @ escaped))))))"

definition getMediaUrl ::
  "(jsstring \<Rightarrow> parts option) \<Rightarrow> (jsstring \<Rightarrow> jsstring) \<Rightarrow> jsstring \<Rightarrow> js_error + jsstring option" where
  "getMediaUrl exec md5hex url = getMediaBase exec md5hex url True"

definition ascii :: "jsstring \<Rightarrow> bool" where
  "ascii s = list_all (\<lambda>c. c < 0x80) s"

definition whole :: "jsstring \<Rightarrow> bool" where
  "whole cp \<longleftrightarrow>
     (\<exists>c. cp = [c]) \<or> (\<exists>h l. cp = [h, l] \<and> isHighSurrogate h \<and> isLowSurrogate l)"

definition clean :: "jsstring \<Rightarrow> bool" where
  "clean cp \<longleftrightarrow>
     (\<exists>c. cp = [c] \<and> \<not> isHighSurrogate c \<and> \<not> isLowSurrogate c) \<or>
     (\<exists>h l. cp = [h, l] \<and> isHighSurrogate h \<and> isLowSurrogate l)"

definition joins :: "jsstring \<Rightarrow> bool" where
  "joins t \<longleftrightarrow> t = [] \<or> \<not> isLowSurrogate (hd t)"

lemma ascii_not_surrogate: "c < 0x80 \<Longrightarrow> \<not> isHighSurrogate c \<and> \<not> isLowSurrogate c"
  for c :: code_unit
  by (auto simp: isHighSurrogate_def isLowSurrogate_def word_le_nat_alt word_less_nat_alt)

lemma codepoints_append: "joins t \<Longrightarrow> codepoints (s @ t) = codepoints s @ codepoints t"
proof (induction s rule: codepoints.induct)
  case (1 h l rest)
  then show ?case by simp
next
  case (2 c)
  then show ?case by (cases t) (auto simp: joins_def)
next
  case 3
  then show ?case by simp
qed

lemma byteLength_append: "joins t \<Longrightarrow> byteLength (s @ t) = byteLength s + byteLength t"
  by (simp add: byteLength_def codepoints_append)

lemma codepoints_ascii: "ascii s \<Longrightarrow> codepoints s = map (\<lambda>c. [c]) s"
  by (induction s rule: codepoints.induct) (auto simp: ascii_def dest: ascii_not_surrogate)

lemma byteLength_ascii: "ascii s \<Longrightarrow> byteLength s = length s"
proof -
  assume a: "ascii s"
  have "sum_list (map cpSize (map (\<lambda>c. [c]) s)) = length s"
    using a by (induction s) (auto simp: ascii_def)
  then show ?thesis using a by (simp add: byteLength_def codepoints_ascii)
qed

lemma ascii_joins: "ascii t \<Longrightarrow> joins t"
  by (cases t) (auto simp: joins_def ascii_def dest: ascii_not_surrogate)

lemma ascii_append: "ascii (s @ t) \<longleftrightarrow> ascii s \<and> ascii t"
  by (simp add: ascii_def)

lemma ascii_take: "ascii s \<Longrightarrow> ascii (take n s)"
  by (auto simp: ascii_def list_all_iff dest: in_set_takeD)

lemma ascii_js_dot: "ascii (js ''.'')" and ascii_js_dots: "ascii (js ''...'')"
  by (simp_all add: ascii_def js_def)

lemma codepoints_all_whole: "list_all whole (codepoints s)"
  by (induction s rule: codepoints.induct) (auto simp: whole_def)

lemma writeFit_all: "list_all P cps \<Longrightarrow> list_all P (writeFit n cps)"
  by (induction cps arbitrary: n) auto

lemma writeFit_size: "sum_list (map cpSize (writeFit n cps)) \<le> n"
proof (induction cps arbitrary: n)
  case Nil
  then show ?case by simp
next
  case (Cons cp cps)
  show ?case using Cons [of "n - cpSize cp"] by auto
qed

lemma readBack_clean: "whole cp \<Longrightarrow> clean (readBack cp) \<and> cpSize (readBack cp) = cpSize cp"
proof -
  have big: "isHighSurrogate c \<or> isLowSurrogate c \<Longrightarrow> \<not> c < 0x80 \<and> \<not> c < 0x800"
    for c :: code_unit
    by (auto simp: isHighSurrogate_def isLowSurrogate_def word_le_nat_alt word_less_nat_alt)
  show "whole cp \<Longrightarrow> clean (readBack cp) \<and> cpSize (readBack cp) = cpSize cp"
    using big by (auto simp: whole_def clean_def isHighSurrogate_def isLowSurrogate_def)
qed

lemma readBack_size:
  "list_all whole cps \<Longrightarrow> sum_list (map cpSize (map readBack cps)) = sum_list (map cpSize cps)"
  by (induction cps) (simp_all add: readBack_clean)

lemma codepoints_concat_clean:
  "list_all clean xs \<Longrightarrow> joins t \<Longrightarrow> codepoints (concat xs @ t) = xs @ codepoints t"
proof (induction xs)
  case Nil
  then show ?case by simp
next
  case (Cons cp xs)
  then have ih: "codepoints (concat xs @ t) = xs @ codepoints t" by simp
  from Cons.prems(1) have "clean cp" by simp
  then consider c where "cp = [c]" "\<not> isHighSurrogate c" "\<not> isLowSurrogate c"
    | h l where "cp = [h, l]" "isHighSurrogate h" "isLowSurrogate l"
    by (auto simp: clean_def)
  then show ?case
  proof cases
    case 1
    then show ?thesis using ih by (cases "concat xs @ t") auto
  next
    case 2
    then show ?thesis using ih by simp
  qed
qed

lemma byteLength_written:
  assumes "joins t"
  shows "byteLength (concat (map readBack (writeFit n (codepoints s))) @ t) \<le> n + byteLength t"
proof -
  let ?cps = "writeFit n (codepoints s)"
  have w: "list_all whole ?cps"
    by (rule writeFit_all [OF codepoints_all_whole])
  then have c: "list_all clean (map readBack ?cps)"
    by (induction ?cps) (auto simp: list_all_iff readBack_clean)
  have "sum_list (map cpSize (map readBack ?cps)) = sum_list (map cpSize ?cps)"
    by (rule readBack_size [OF w])
  then have "sum_list (map cpSize (map readBack ?cps)) \<le> n"
    using writeFit_size [of n "codepoints s"] by simp
  then show ?thesis
    using codepoints_concat_clean [OF c assms] by (simp add: byteLength_def)
qed

text \<open>
  Claim C4 says that a file name over the limit is cut to exactly 250 bytes. The base is
  cut to at most \<open>239 - ext.length\<close> bytes, and 2 digits, a dot and the extension follow:
  242 bytes for an extension of one byte per character. The example is the file name of
  260 letters \<open>a\<close> and the extension \<open>jpg\<close>; \<open>md5_of_260a\<close> is the MD5 digest of those
  260 letters, the one string the example hashes.
\<close>

definition md5_of_260a :: "jsstring \<Rightarrow> jsstring" where
  "md5_of_260a b = js ''6eeae9bf4dbb517d471f397af83bc76b''"

definition longParts :: parts where
  "longParts =
     \<lparr>p2 = replicate 260 0x61 @ js ''.jpg'', p4 = js ''120px-'', p5 = replicate 260 0x61,
      p6 = js ''.jpg'', p7 = []\<rparr>"

lemma replicate_a_ascii: "ascii (replicate n 0x61)"
  by (simp add: ascii_def list_all_iff)

lemma longName_size: "getBinarySize (replicate 260 0x61 @ js ''.jpg'') = 264"
proof -
  have "ascii (replicate 260 0x61 @ js ''.jpg'')"
    by (simp add: ascii_append replicate_a_ascii) (simp add: ascii_def js_def)
  then show ?thesis by (simp add: getBinarySize_def byteLength_ascii js_def)
qed

lemma Decode_no_percent: "0x25 \<notin> set s \<Longrightarrow> Decode reservedSet s = Inr s"
  by (induction s) (simp_all add: prepend_def)

lemma longName_decode:
  "myDecodeURIComponent (replicate 260 0x61 @ js ''.jpg'') = Inr (replicate 260 0x61 @ js ''.jpg'')"
  by (simp add: myDecodeURIComponent_def decodeURIComponent_def try_catch_def
      Decode_no_percent js_def)

lemma extname_loop_plain:
  "list_all (\<lambda>c. c \<noteq> 0x2F \<and> c \<noteq> 0x2E) cs \<Longrightarrow> cs \<noteq> [] \<Longrightarrow>
   startDot st = Some sd \<Longrightarrow> endPos st = Some e \<Longrightarrow>
   extname_loop cs n st = st\<lparr>preDotState := - 1\<rparr>"
proof (induction cs arbitrary: n st)
  case Nil
  then show ?case by simp
next
  case (Cons c cs)
  show ?case
  proof (cases cs)
    case Nil
    with Cons.prems show ?thesis by (simp add: Let_def)
  next
    case (Cons c' cs')
    then have "extname_loop cs (n - 1) (st\<lparr>preDotState := - 1\<rparr>) =
        st\<lparr>preDotState := - 1, preDotState := - 1\<rparr>"
      using Cons.IH [of "st\<lparr>preDotState := - 1\<rparr>" "n - 1"] Cons.prems by simp
    then show ?thesis using Cons.prems by (simp add: Let_def)
  qed
qed

lemma longName_extname: "extname (replicate 260 0x61 @ js ''.jpg'') = js ''.jpg''"
proof -
  have "extname_loop (replicate 260 0x61) 260
      \<lparr>startDot = Some 260, startPart = 0, endPos = Some 264, matchedSlash = False,
       preDotState = 0\<rparr> =
      \<lparr>startDot = Some 260, startPart = 0, endPos = Some 264, matchedSlash = False,
       preDotState = - 1\<rparr>"
    by (subst extname_loop_plain) (simp_all add: list_all_iff)
  then show ?thesis
    by (simp add: extname_def js_def Let_def)
qed

lemma length_js: "length (js s) = length s"
  by (simp add: js_def)

lemma longName_truncate:
  "truncateToBinarySize (replicate 260 0x61) 236 = Inr (replicate 233 0x61 @ js ''...'')"
proof -
  have a: "ascii (replicate n 0x61)" for n by (rule replicate_a_ascii)
  have fit: "writeFit n (replicate m [0x61 :: code_unit]) = replicate (min n m) [0x61]" for n m
  proof (induction m arbitrary: n)
    case 0
    then show ?case by simp
  next
    case (Suc m)
    show ?case using Suc [of "n - 1"] by (cases n) simp_all
  qed
  have rb: "concat (map readBack (replicate k [0x61 :: code_unit])) = replicate k 0x61" for k
    by (induction k) (auto simp: isHighSurrogate_def isLowSurrogate_def)
  show ?thesis
    by (simp add: truncateToBinarySize_def getBinarySize_def byteLength_ascii [OF a]
        codepoints_ascii [OF a] fit rb isHighSurrogate_def isLowSurrogate_def)
qed

theorem mediaFilename_size_counterexample:
  "getBinarySize (replicate 260 0x61 @ js ''.jpg'') = 264 \<and>
   mediaFilename md5_of_260a longParts = Inr (replicate 233 0x61 @ js ''...6e.jpg'') \<and>
   getBinarySize (replicate 233 0x61 @ js ''...6e.jpg'') = 242"
proof -
  have a: "ascii (replicate 233 0x61 @ js ''...6e.jpg'')"
    by (simp add: ascii_append replicate_a_ascii) (simp add: ascii_def js_def)
  have s: "getBinarySize (replicate 233 0x61 @ js ''...6e.jpg'') = 242"
    by (simp add: getBinarySize_def byteLength_ascii [OF a]) (simp add: js_def)
  have v: "secondVariant longParts = replicate 260 0x61 @ js ''.jpg''"
    by (simp add: secondVariant_def longParts_def or_else_def js_def)
  have e: "second_or_empty (split_dot (js ''.jpg'')) = js ''jpg''"
    by (simp add: second_or_empty_def js_def)
  have m: "mediaFilename md5_of_260a longParts = Inr (replicate 233 0x61 @ js ''...6e.jpg'')"
    unfolding mediaFilename_def v
    by (simp add: longParts_def longName_decode shortenFilename_def longName_size
        longName_extname e)
       (simp add: js_def longName_truncate [unfolded js_def, simplified] md5_of_260a_def)
  show ?thesis using longName_size s m by simp
qed

text \<open>
  Claim C4, amended. For every file name of more than 249 UTF-8 bytes whose extension has
  one byte per character and at most 236 characters, the truncation gives at most 242
  UTF-8 bytes: the base name cut to at most 239 minus the extension length bytes (the
  ellipsis included), then the first 2 hexadecimal digits of MD5(base), a dot and the
  extension.
\<close>

theorem shortenFilename_size:
  assumes "249 < getBinarySize filename"
    and "ext = second_or_empty (split_dot (extname filename))"
    and "basename = take (length filename - length ext - 1) filename"
    and "ascii ext" and "length ext \<le> 236" and "ascii (md5hex basename)"
  shows "\<exists>truncated.
           truncateToBinarySize basename (239 - int (length ext)) = Inr truncated \<and>
           int (getBinarySize truncated) \<le> 239 - int (length ext) \<and>
           shortenFilename md5hex filename =
             Inr (truncated @ take 2 (md5hex basename) @ js ''.'' @ ext) \<and>
           getBinarySize (truncated @ take 2 (md5hex basename) @ js ''.'' @ ext) \<le> 242"
proof -
  let ?tail = "take 2 (md5hex basename) @ js ''.'' @ ext"
  have tail: "ascii ?tail"
    using assms(4,6) by (simp add: ascii_append ascii_take ascii_js_dot)
  have tl: "byteLength ?tail \<le> 3 + length ext"
    by (simp add: byteLength_ascii [OF tail]) (simp add: js_def)
  have sh: "shortenFilename md5hex filename =
      (case truncateToBinarySize basename (239 - int (length ext)) of
         Inl error \<Rightarrow> Inl error | Inr truncated \<Rightarrow> Inr (truncated @ ?tail))"
    unfolding shortenFilename_def Let_def assms(2) [symmetric] assms(3) [symmetric]
    using assms(1) by simp
  show ?thesis
  proof (cases "int (getBinarySize basename) \<le> 239 - int (length ext)")
    case True
    then have t: "truncateToBinarySize basename (239 - int (length ext)) = Inr basename"
      by (simp add: truncateToBinarySize_def)
    have "byteLength (basename @ ?tail) = byteLength basename + byteLength ?tail"
      by (rule byteLength_append [OF ascii_joins [OF tail]])
    then have "getBinarySize (basename @ ?tail) \<le> 242"
      using True tl by (simp add: getBinarySize_def)
    then show ?thesis using True t sh by simp
  next
    case False
    let ?w = "concat (map readBack (writeFit (nat (239 - int (length ext) - 3))
      (codepoints basename)))"
    have t: "truncateToBinarySize basename (239 - int (length ext)) = Inr (?w @ js ''...'')"
      using False assms(5) by (simp add: truncateToBinarySize_def)
    have d: "byteLength (js ''...'') = 3"
      by (simp add: byteLength_ascii [OF ascii_js_dots]) (simp add: js_def)
    have "byteLength (?w @ js ''...'') \<le> nat (239 - int (length ext) - 3) + byteLength (js ''...'')"
      by (rule byteLength_written [OF ascii_joins [OF ascii_js_dots]])
    then have b1: "int (getBinarySize (?w @ js ''...'')) \<le> 239 - int (length ext)"
      using assms(5) d by (simp add: getBinarySize_def)
    have dt: "ascii (js ''...'' @ ?tail)"
      using tail by (simp add: ascii_append ascii_js_dots)
    have "byteLength (js ''...'' @ ?tail) = byteLength (js ''...'') + byteLength ?tail"
      by (rule byteLength_append [OF ascii_joins [OF tail]])
    moreover have "byteLength (?w @ js ''...'' @ ?tail) \<le>
        nat (239 - int (length ext) - 3) + byteLength (js ''...'' @ ?tail)"
      by (rule byteLength_written [OF ascii_joins [OF dt]])
    ultimately have b2: "getBinarySize ((?w @ js ''...'') @ ?tail) \<le> 242"
      using assms(5) d tl by (simp add: getBinarySize_def)
    show ?thesis using t sh b1 b2 by simp
  qed
qed

theorem shortenFilename_size_witness:
  "249 < getBinarySize (replicate 260 0x61 @ js ''.jpg'') \<and>
   shortenFilename md5_of_260a (replicate 260 0x61 @ js ''.jpg'') =
     Inr ((replicate 233 0x61 @ js ''...'') @ js ''6e'' @ js ''.'' @ js ''jpg'') \<and>
   getBinarySize ((replicate 233 0x61 @ js ''...'') @ js ''6e'' @ js ''.'' @ js ''jpg'') \<le> 242"
proof -
  have e: "second_or_empty (split_dot (extname (replicate 260 0x61 @ js ''.jpg''))) = js ''jpg''"
    by (simp add: longName_extname) (simp add: second_or_empty_def js_def)
  have b: "take (length (replicate 260 0x61 @ js ''.jpg'') - length (js ''jpg'') - 1)
      (replicate 260 0x61 @ js ''.jpg'') = replicate 260 (0x61 :: code_unit)"
    by (simp add: length_js)
  have l: "249 < getBinarySize (replicate 260 0x61 @ js ''.jpg'')"
    by (simp add: longName_size)
  have x: "ascii (js ''jpg'')" "length (js ''jpg'') \<le> 236"
    "ascii (md5_of_260a (replicate 260 0x61))"
    by (simp_all add: ascii_def js_def md5_of_260a_def)
  have t: "take 2 (md5_of_260a (replicate 260 0x61)) = js ''6e''"
    by (simp add: md5_of_260a_def js_def)
  have "\<exists>truncated.
      truncateToBinarySize (replicate 260 0x61) (239 - int (length (js ''jpg''))) = Inr truncated \<and>
      int (getBinarySize truncated) \<le> 239 - int (length (js ''jpg'')) \<and>
      shortenFilename md5_of_260a (replicate 260 0x61 @ js ''.jpg'') =
        Inr (truncated @ take 2 (md5_of_260a (replicate 260 0x61)) @ js ''.'' @ js ''jpg'') \<and>
      getBinarySize (truncated @ take 2 (md5_of_260a (replicate 260 0x61)) @ js ''.'' @ js ''jpg'')
        \<le> 242"
    by (rule shortenFilename_size
        [of "replicate 260 0x61 @ js ''.jpg''" "js ''jpg''" "replicate 260 0x61" md5_of_260a])
       (rule l e [symmetric] b [symmetric] x)+
  moreover have "239 - int (length (js ''jpg'')) = 236"
    by (simp add: js_def)
  ultimately show ?thesis using l longName_truncate by (auto simp: t)
qed

section \<open>rewriteUrl: geo links\<close>

text \<open>
  \<^verbatim>\<open>
  function rewriteUrl(linkNode) {
      let href = linkNode.getAttribute('href');
      if (!href) { return; }
      let lat, lon;
      if (/poimap2\.php/i.test(href)) {
          let hrefQuery = urlParser.parse(href, true).query;
          lat = parseFloat(hrefQuery.lat);
          lon = parseFloat(hrefQuery.lon);
      } else if (/geohack\.php/i.test(href)) {
          let params = urlParser.parse(href, true).query.params;
          // "params" might be an array, try to detect the geo localization one
          if (params instanceof Array) {
              let i = 0;
              while (params[i] && isNaN(params[i][0])) { i++ }
              params = params[i];
          }
          if (params) {
              let pieces = params.toUpperCase().split('_');
              let semiPieces = pieces.length > 0 ? pieces[0].split(';') : undefined;
              if (semiPieces && semiPieces.length == 2) {
                  lat = semiPieces[0];
                  lon = semiPieces[1];
              } else {
                  let factors = [1, 60, 3600];
                  let offs = 0;
                  let deg = function (hemiHash) {
                      let out = 0;
                      let hemiSign = 1;
                      for (let i = 0; i < 4 && (i + offs) < pieces.length; i++) {
                          let v = pieces[i + offs];
                          let hemiSign = hemiHash[v];
                          if (hemiSign) { offs = i + 1; break; }
                          out += v / factors[i];
                      }
                      return out * hemiSign;
                  };
                  lat = deg({N: 1, S: -1});
                  lon = deg({E: 1, W: -1, O: 1});
              }
          }
      }
      if (!isNaN(lat) && !isNaN(lon)) {
          href = 'geo:' + lat + ',' + lon;
          linkNode.setAttribute('href', href);
      }
  }
  \<close>
  A JavaScript number is a double. The model computes with exact rationals and a value
  \<open>NaN\<close>: it leaves out rounding and the infinities (the literal \<open>Infinity\<close> and literals
  beyond the range of a double). \<open>toUpperCase\<close> is modelled on the letters \<open>a\<close> to \<open>z\<close>.
\<close>

datatype jsnum = NaN | Num rat

fun jsnum_add :: "jsnum \<Rightarrow> jsnum \<Rightarrow> jsnum" where
  "jsnum_add (Num a) (Num b) = Num (a + b)"
| "jsnum_add a b = NaN"

fun jsnum_mul :: "jsnum \<Rightarrow> jsnum \<Rightarrow> jsnum" where
  "jsnum_mul (Num a) (Num b) = Num (a * b)"
| "jsnum_mul a b = NaN"

text \<open>Division by one of the \<open>factors\<close>, none of which is zero.\<close>

fun jsnum_div :: "jsnum \<Rightarrow> jsnum \<Rightarrow> jsnum" where
  "jsnum_div (Num a) (Num b) = (if b = 0 then NaN else Num (a / b))"
| "jsnum_div a b = NaN"

subsection \<open>Strings to numbers\<close>

definition isWhiteSpace :: "code_unit \<Rightarrow> bool" where
  "isWhiteSpace c \<longleftrightarrow>
     c \<in> {0x9, 0xA, 0xB, 0xC, 0xD, 0x20, 0xA0, 0x1680, 0x2028, 0x2029, 0x202F, 0x205F,
          0x3000, 0xFEFF} \<or> (0x2000 \<le> c \<and> c \<le> 0x200A)"

definition trim :: "jsstring \<Rightarrow> jsstring" where
  "trim s = rev (dropWhile isWhiteSpace (rev (dropWhile isWhiteSpace s)))"

definition digitValue :: "code_unit \<Rightarrow> nat" where
  "digitValue c =
     (let n = unat c
      in if 48 \<le> n \<and> n \<le> 57 then n - 48
         else if 65 \<le> n \<and> n \<le> 90 then n - 55
         else if 97 \<le> n \<and> n \<le> 122 then n - 87
         else 36)"

definition radixValue :: "nat \<Rightarrow> jsstring \<Rightarrow> nat option" where
  "radixValue radix ds =
     (if ds \<noteq> [] \<and> list_all (\<lambda>c. digitValue c < radix) ds
      then Some (foldl (\<lambda>n c. radix * n + digitValue c) 0 ds)
      else None)"

text \<open>
  An unsigned decimal literal: digits, an optional fraction, an optional exponent; at least
  one digit before or after the point. The result is the value and the rest of the
  string behind the longest such literal.
\<close>

definition takeExponent :: "jsstring \<Rightarrow> int \<times> jsstring" where
  "takeExponent s =
     (case s of
        e # rest \<Rightarrow>
          if e = 0x65 \<or> e = 0x45
          then (let (neg, r1) = (case rest of
                                  sg # r \<Rightarrow> if sg = 0x2D then (True, r)
                                             else if sg = 0x2B then (False, r)
                                             else (False, rest)
                                | [] \<Rightarrow> (False, rest));
                    ds = takeWhile isDigit r1
                in if ds = [] then (0, s)
                   else ((if neg then - int (digitsValue ds) else int (digitsValue ds)),
                         dropWhile isDigit r1))
          else (0, s)
      | [] \<Rightarrow> (0, s))"

definition takeDecimal :: "jsstring \<Rightarrow> (rat \<times> jsstring) option" where
  "takeDecimal s =
     (let ip = takeWhile isDigit s;
          r1 = dropWhile isDigit s;
          (fp, r2) = (case r1 of
                        d # r \<Rightarrow> if d = 0x2E \<and> (ip \<noteq> [] \<or> takeWhile isDigit r \<noteq> [])
                                   then (takeWhile isDigit r, dropWhile isDigit r)
                                   else ([], r1)
                      | [] \<Rightarrow> ([], r1))
      in if ip = [] \<and> fp = [] then None
         else let (ex, r3) = takeExponent r2;
                  m = of_nat (digitsValue (ip @ fp)) / (10 ^ length fp) :: rat
              in Some ((if 0 \<le> ex then m * 10 ^ nat ex else m / 10 ^ nat (- ex)), r3))"

definition takeSigned :: "jsstring \<Rightarrow> (rat \<times> jsstring) option" where
  "takeSigned s =
     (case s of
        sg # r \<Rightarrow>
          if sg = 0x2D then map_option (\<lambda>(v, rest). (- v, rest)) (takeDecimal r)
          else if sg = 0x2B then takeDecimal r
          else takeDecimal s
      | [] \<Rightarrow> None)"

text \<open>\<open>Number(s)\<close>, the conversion that \<open>isNaN\<close> and the division apply to a string.\<close>

definition toNumber :: "jsstring \<Rightarrow> jsnum" where
  "toNumber s =
     (let t = trim s
      in if t = [] then Num 0
         else if take 2 t = js ''0X'' \<or> take 2 t = js ''0x''
         then (case radixValue 16 (drop 2 t) of Some n \<Rightarrow> Num (of_nat n) | None \<Rightarrow> NaN)
         else if take 2 t = js ''0O'' \<or> take 2 t = js ''0o''
         then (case radixValue 8 (drop 2 t) of Some n \<Rightarrow> Num (of_nat n) | None \<Rightarrow> NaN)
         else if take 2 t = js ''0B'' \<or> take 2 t = js ''0b''
         then (case radixValue 2 (drop 2 t) of Some n \<Rightarrow> Num (of_nat n) | None \<Rightarrow> NaN)
         else (case takeSigned t of
                 Some (v, []) \<Rightarrow> Num v
               | _ \<Rightarrow> NaN))"

text \<open>\<open>parseFloat(s)\<close>: the longest decimal literal at the front, after white space.\<close>

definition parseFloat :: "jsstring \<Rightarrow> jsnum" where
  "parseFloat s =
     (case takeSigned (dropWhile isWhiteSpace s) of Some (v, rest) \<Rightarrow> Num v | None \<Rightarrow> NaN)"

subsection \<open>The values of lat and lon\<close>

datatype jsany = JUndefined | JNum jsnum | JStr jsstring

definition isNaN :: "jsany \<Rightarrow> bool" where
  "isNaN v =
     (case v of
        JUndefined \<Rightarrow> True
      | JNum n \<Rightarrow> n = NaN
      | JStr s \<Rightarrow> toNumber s = NaN)"

definition toUpperCase :: "jsstring \<Rightarrow> jsstring" where
  "toUpperCase s = map (\<lambda>c. if 0x61 \<le> c \<and> c \<le> 0x7A then c - 0x20 else c) s"

fun split :: "code_unit \<Rightarrow> jsstring \<Rightarrow> jsstring list" where
  "split sep [] = [[]]"
| "split sep (c # cs) =
     (if c = sep then [] # split sep cs
      else (case split sep cs of piece # pieces \<Rightarrow> (c # piece) # pieces | [] \<Rightarrow> [[c]]))"

definition factors :: "nat \<Rightarrow> jsnum" where
  "factors i = (if i = 0 then Num 1 else if i = 1 then Num 60 else if i = 2 then Num 3600 else NaN)"

text \<open>
  The loop of \<open>deg\<close>. \<open>hemiHash\<close> is the object literal, a list of keys and values. The
  \<open>let hemiSign = hemiHash[v]\<close> in the body declares a variable of its own: the value found
  never reaches the \<open>hemiSign\<close> of the function, which stays 1. The result is the sum and
  the new value of \<open>offs\<close>.
\<close>

function deg_loop ::
  "(jsstring \<times> int) list \<Rightarrow> jsstring list \<Rightarrow> nat \<Rightarrow> nat \<Rightarrow> jsnum \<Rightarrow> jsnum \<times> nat" where
  "deg_loop hemiHash pieces offs i out =
     (if i < 4 \<and> i + offs < length pieces
      then let v = pieces ! (i + offs)
           in (case map_of hemiHash v of
                 Some hemiSign \<Rightarrow>
                   if hemiSign \<noteq> 0 then (out, i + 1)
                   else deg_loop hemiHash pieces offs (i + 1)
                          (jsnum_add out (jsnum_div (toNumber v) (factors i)))
               | None \<Rightarrow>
                   deg_loop hemiHash pieces offs (i + 1)
                     (jsnum_add out (jsnum_div (toNumber v) (factors i))))
      else (out, offs))"
  by pat_completeness auto
termination
  by (relation "measure (\<lambda>(hemiHash, pieces, offs, i, out). 4 - i)") auto

definition deg :: "(jsstring \<times> int) list \<Rightarrow> jsstring list \<Rightarrow> nat \<Rightarrow> jsnum \<times> nat" where
  "deg hemiHash pieces offs =
     (let hemiSign = Num 1;
          (out, offs') = deg_loop hemiHash pieces offs 0 (Num 0)
      in (jsnum_mul out hemiSign, offs'))"

definition geohack_lat_lon :: "jsstring \<Rightarrow> jsany \<times> jsany" where
  "geohack_lat_lon params =
     (let pieces = split 0x5F (toUpperCase params);
          semiPieces = split 0x3B (hd pieces)
      in if length semiPieces = 2 then (JStr (semiPieces ! 0), JStr (semiPieces ! 1))
         else let (lat, offs) = deg [(js ''N'', 1), (js ''S'', - 1)] pieces 0;
                  (lon, offs') = deg [(js ''E'', 1), (js ''W'', - 1), (js ''O'', 1)] pieces offs
              in (JNum lat, JNum lon))"

text \<open>
  The query of the parsed URL is the URL module's: \<open>queryOf href key\<close> is the value of
  \<open>urlParser.parse(href, true).query[key]\<close>, absent, a string, or an array of strings when
  the key occurs more than once. Writing a number as a string is the runtime's too
  (\<open>numberToString\<close>).
\<close>

datatype qvalue = QAbsent | QString jsstring | QArray "jsstring list"

record url_env =
  queryOf :: "jsstring \<Rightarrow> jsstring \<Rightarrow> qvalue"
  numberToString :: "rat \<Rightarrow> jsstring"

definition contains_ci :: "jsstring \<Rightarrow> jsstring \<Rightarrow> bool" where
  "contains_ci needle s \<longleftrightarrow>
     list_ex (\<lambda>k. take (length needle) (drop k (toUpperCase s)) = toUpperCase needle)
       [0 ..< Suc (length s)]"

text \<open>\<open>while (params[i] && isNaN(params[i][0])) { i++ }; params = params[i]\<close>: the first
  element that is empty or whose first character converts to a number, if any.\<close>

fun pickParams :: "jsstring list \<Rightarrow> jsstring option" where
  "pickParams [] = None"
| "pickParams (p # ps) =
     (if p \<noteq> [] \<and> isNaN (JStr [hd p]) then pickParams ps else Some p)"

definition parseFloat_query :: "qvalue \<Rightarrow> jsnum" where
  "parseFloat_query q =
     (case q of
        QAbsent \<Rightarrow> NaN
      | QString s \<Rightarrow> parseFloat s
      | QArray ss \<Rightarrow> parseFloat (concat (case ss of [] \<Rightarrow> [] | s # rest \<Rightarrow>
                        s # map (\<lambda>x. 0x2C # x) rest)))"

definition lat_lon :: "url_env \<Rightarrow> jsstring \<Rightarrow> jsany \<times> jsany" where
  "lat_lon env href =
     (if contains_ci (js ''poimap2.php'') href
      then (JNum (parseFloat_query (queryOf env href (js ''lat''))),
            JNum (parseFloat_query (queryOf env href (js ''lon''))))
      else if contains_ci (js ''geohack.php'') href
      then (let params = (case queryOf env href (js ''params'') of
                            QAbsent \<Rightarrow> None
                          | QString s \<Rightarrow> Some s
                          | QArray ss \<Rightarrow> pickParams ss)
            in case params of
                 None \<Rightarrow> (JUndefined, JUndefined)
               | Some p \<Rightarrow> if p = [] then (JUndefined, JUndefined) else geohack_lat_lon p)
      else (JUndefined, JUndefined))"

definition toString :: "url_env \<Rightarrow> jsany \<Rightarrow> jsstring" where
  "toString env v =
     (case v of
        JUndefined \<Rightarrow> js ''undefined''
      | JNum NaN \<Rightarrow> js ''NaN''
      | JNum (Num r) \<Rightarrow> numberToString env r
      | JStr s \<Rightarrow> s)"

text \<open>The new value of the \<open>href\<close> attribute, if \<open>rewriteUrl\<close> sets one.\<close>

definition rewriteUrl :: "url_env \<Rightarrow> jsstring option \<Rightarrow> jsstring option" where
  "rewriteUrl env hrefAttr =
     (case hrefAttr of
        None \<Rightarrow> None
      | Some href \<Rightarrow>
          if href = [] then None
          else let (lat, lon) = lat_lon env href
               in if \<not> isNaN lat \<and> \<not> isNaN lon
                  then Some (js ''geo:'' @ toString env lat @ js '','' @ toString env lon)
                  else None)"

declare deg_loop.simps [simp del]

lemmas geo_eval = geohack_lat_lon_def deg_def deg_loop.simps [of _ "x # xs" for x xs]
  toNumber_def trim_def takeSigned_def takeDecimal_def takeExponent_def radixValue_def
  digitValue_def digitsValue_def isDigit_def isWhiteSpace_def toUpperCase_def factors_def
  js_def Let_def

lemma geohack_example:
  "geohack_lat_lon (js ''48.85825_N_2.2945_E_type:landmark'') =
     (JNum (Num (4885825 / 100000)), JNum (Num (22945 / 10000)))"
  by (simp add: geo_eval)

lemma geohack_sydney:
  "geohack_lat_lon (js ''33.8688_S_151.2093_E'') =
     (JNum (Num (338688 / 10000)), JNum (Num (1512093 / 10000)))"
  by (simp add: geo_eval)

lemma deg_loop_ignores_sign:
  "map_of hemiHash' = map_option (\<lambda>s. if s = 0 then 0 else 1) \<circ> map_of hemiHash \<Longrightarrow>
   deg_loop hemiHash' pieces offs i out = deg_loop hemiHash pieces offs i out"
proof (induction hemiHash pieces offs i out rule: deg_loop.induct)
  case (1 hemiHash pieces offs i out)
  have m: "map_of hemiHash' v = map_option (\<lambda>s. if s = 0 then 0 else 1) (map_of hemiHash v)"
    for v using "1.prems" by simp
  show ?case
    unfolding deg_loop.simps [of hemiHash' pieces offs i out]
      deg_loop.simps [of hemiHash pieces offs i out]
    using "1.IH" "1.prems" by (auto simp: Let_def m split: option.splits)
qed

lemma deg_south_like_north:
  "deg [(js ''N'', 1), (js ''S'', - 1)] pieces offs = deg [(js ''N'', 1), (js ''S'', 1)] pieces offs"
proof -
  have "map_of [(js ''N'', 1), (js ''S'', 1 :: int)] =
      map_option (\<lambda>s. if s = 0 then 0 else 1) \<circ> map_of [(js ''N'', 1), (js ''S'', - 1 :: int)]"
    by (rule ext) simp
  from deg_loop_ignores_sign [OF this] show ?thesis
    by (simp add: deg_def)
qed

text \<open>
  Claim C1 says that the hemisphere letter gives the sign, S and W negative. The example of
  the claim holds (\<open>geohack_example\<close>), but the sign is never applied: the object literals
  carry \<open>S: -1\<close> and \<open>W: -1\<close>, and \<open>deg\<close> multiplies by its own \<open>hemiSign\<close>, which is 1
  whatever letter was found (\<open>deg_south_like_north\<close>). Sydney, 33.8688 S 151.2093 E,
  gets the latitude +33.8688.
\<close>

theorem geohack_south_is_positive:
  "geohack_lat_lon (js ''33.8688_S_151.2093_E'') =
     (JNum (Num (338688 / 10000)), JNum (Num (1512093 / 10000)))"
  by (rule geohack_sydney)

lemma geohack_west_is_positive:
  "geohack_lat_lon (js ''40_42_46_N_74_0_21_W'') =
     (JNum (Num (40 + 42 / 60 + 46 / 3600)), JNum (Num (74 + 0 / 60 + 21 / 3600)))"
  by (simp add: geo_eval)

lemma rewriteUrl_south:
  "queryOf env (js ''http://tools.wmflabs.org/geohack/geohack.php?params=33.8688_S_151.2093_E'')
     (js ''params'') = QString (js ''33.8688_S_151.2093_E'') \<Longrightarrow>
   rewriteUrl env
     (Some (js ''http://tools.wmflabs.org/geohack/geohack.php?params=33.8688_S_151.2093_E'')) =
     Some (js ''geo:'' @ numberToString env (338688 / 10000) @ js '','' @
           numberToString env (1512093 / 10000))"
proof -
  assume q: "queryOf env
      (js ''http://tools.wmflabs.org/geohack/geohack.php?params=33.8688_S_151.2093_E'')
      (js ''params'') = QString (js ''33.8688_S_151.2093_E'')"
  have g: "contains_ci (js ''geohack.php'')
      (js ''http://tools.wmflabs.org/geohack/geohack.php?params=33.8688_S_151.2093_E'')"
    by (simp add: contains_ci_def toUpperCase_def js_def upt_rec)
  have p: "\<not> contains_ci (js ''poimap2.php'')
      (js ''http://tools.wmflabs.org/geohack/geohack.php?params=33.8688_S_151.2093_E'')"
    by (simp add: contains_ci_def toUpperCase_def js_def upt_rec)
  have n: "js ''33.8688_S_151.2093_E'' \<noteq> []" "js ''http://tools.wmflabs.org/geohack/geohack.php?params=33.8688_S_151.2093_E'' \<noteq> []"
    by (simp_all add: js_def)
  show ?thesis
    by (simp add: rewriteUrl_def lat_lon_def g p q n geohack_sydney isNaN_def
        toString_def)
qed

section \<open>The section DOM\<close>

text \<open>
  The text of a section is parsed into a document, and the three passes of
  \<open>transformSection\<close> work on its element tree. The model is the forest under
  \<open>body\<close>. An element is an object: it has an identity, by which the program holds on to
  it, its local name (\<open>img\<close>, \<open>a\<close>; \<open>tagName\<close> is the same name in capitals), its
  attributes in order, and its children. In a document no two elements have the same
  identity.
\<close>

type_synonym attrs = "(jsstring \<times> jsstring) list"

datatype node = Element nat jsstring attrs "node list" | Text jsstring

definition getAttribute :: "attrs \<Rightarrow> jsstring \<Rightarrow> jsstring option" where
  "getAttribute as name = map_of as name"

fun setAttribute :: "jsstring \<Rightarrow> jsstring \<Rightarrow> attrs \<Rightarrow> attrs" where
  "setAttribute name v [] = [(name, v)]"
| "setAttribute name v ((k, x) # as) =
     (if k = name then (k, v) # as else (k, x) # setAttribute name v as)"

definition removeAttribute :: "jsstring \<Rightarrow> attrs \<Rightarrow> attrs" where
  "removeAttribute name as = filter (\<lambda>(k, x). k \<noteq> name) as"

text \<open>The elements of a node (itself included) and of a list of siblings, in document
  order: each with its identity, its name and its attributes (\<open>labels\<close>), or as a whole
  (\<open>elements\<close>).\<close>

fun labels :: "node \<Rightarrow> (nat \<times> jsstring \<times> attrs) list" where
  "labels (Text s) = []"
| "labels (Element i t as cs) = (i, t, as) # concat (map labels cs)"

definition labelsL :: "node list \<Rightarrow> (nat \<times> jsstring \<times> attrs) list" where
  "labelsL ns = concat (map labels ns)"

fun elements :: "node \<Rightarrow> node list" where
  "elements (Text s) = []"
| "elements (Element i t as cs) = Element i t as cs # concat (map elements cs)"

definition elementsL :: "node list \<Rightarrow> node list" where
  "elementsL ns = concat (map elements ns)"

definition wellFormed :: "node list \<Rightarrow> bool" where
  "wellFormed ns \<longleftrightarrow> distinct (map fst (labelsL ns))"

text \<open>
  \<open>getElementsByTagName\<close> and \<open>getElementsByClassName\<close> of the document give a list of
  the elements that match, in document order. The DOM library fills the list of a document
  when it is made and its length first read, and does not refresh it when the document
  changes afterwards. So a loop
  \<^verbatim>\<open>for (let i = 0; i < nodes.length; i++) { ... nodes[i] ... }\<close>
  runs over the elements that matched when the list was asked for, also over those that an
  earlier turn has taken out of the document. \<open>idsOf P ns\<close> is that list, by identity.
\<close>

definition idsOf :: "(jsstring \<Rightarrow> attrs \<Rightarrow> bool) \<Rightarrow> node list \<Rightarrow> nat list" where
  "idsOf P ns = map fst (filter (\<lambda>(i, t, as). P t as) (labelsL ns))"

definition countL :: "(jsstring \<Rightarrow> attrs \<Rightarrow> bool) \<Rightarrow> node list \<Rightarrow> nat" where
  "countL P ns = length (idsOf P ns)"

fun isElem :: "nat \<Rightarrow> node \<Rightarrow> bool" where
  "isElem i (Element j t as cs) \<longleftrightarrow> j = i"
| "isElem i (Text s) \<longleftrightarrow> False"

fun children :: "node \<Rightarrow> node list" where
  "children (Element i t as cs) = cs"
| "children (Text s) = []"

text \<open>The element with identity \<open>i\<close>, and the element of which it is a child.\<close>

definition findL :: "nat \<Rightarrow> node list \<Rightarrow> node option" where
  "findL i ns = find (isElem i) (elementsL ns)"

definition parentL :: "nat \<Rightarrow> node list \<Rightarrow> node option" where
  "parentL i ns = find (\<lambda>p. list_ex (isElem i) (children p)) (elementsL ns)"

text \<open>Taking the element \<open>i\<close> out of its parent, with all that is below it.\<close>

fun remove :: "nat \<Rightarrow> node \<Rightarrow> node list" where
  "remove i (Text s) = [Text s]"
| "remove i (Element j t as cs) =
     (if j = i then [] else [Element j t as (concat (map (remove i) cs))])"

definition removeL :: "nat \<Rightarrow> node list \<Rightarrow> node list" where
  "removeL i ns = concat (map (remove i) ns)"

text \<open>Changing the attributes of the element \<open>i\<close>.\<close>

fun update :: "nat \<Rightarrow> (attrs \<Rightarrow> attrs) \<Rightarrow> node \<Rightarrow> node" where
  "update i g (Text s) = Text s"
| "update i g (Element j t as cs) =
     Element j t (if j = i then g as else as) (map (update i g) cs)"

definition updateL :: "nat \<Rightarrow> (attrs \<Rightarrow> attrs) \<Rightarrow> node list \<Rightarrow> node list" where
  "updateL i g ns = map (update i g) ns"

text \<open>\<open>parent.replaceChild(child, l)\<close> for a child \<open>i\<close> of the element \<open>l\<close> itself: the
  child, with all that is below it, takes the place of \<open>l\<close>.\<close>

fun unwrap :: "nat \<Rightarrow> nat \<Rightarrow> node \<Rightarrow> node list" where
  "unwrap l i (Text s) = [Text s]"
| "unwrap l i (Element j t as cs) =
     (if j = l then filter (isElem i) cs
      else [Element j t as (concat (map (unwrap l i) cs))])"

definition unwrapL :: "nat \<Rightarrow> nat \<Rightarrow> node list \<Rightarrow> node list" where
  "unwrapL l i ns = concat (map (unwrap l i) ns)"

definition inside :: "(node list \<Rightarrow> node list) \<Rightarrow> node \<Rightarrow> node" where
  "inside f n = (case n of Element j t as cs \<Rightarrow> Element j t as (f cs) | Text s \<Rightarrow> Text s)"

subsection \<open>The configuration and the functions of the rewriter\<close>

record rewriter_env =
  nopic :: bool
  webUrlPath :: jsstring
  parsePathname :: "jsstring \<Rightarrow> js_error + jsstring option"
  articleList :: bool
  namespaces :: "jsstring \<rightharpoonup> bool"
  articleIds :: "jsstring \<Rightarrow> bool"
  getFullUrl :: "jsstring \<Rightarrow> jsstring"
  mediaExec :: "jsstring \<Rightarrow> parts option"
  md5hex :: "jsstring \<Rightarrow> jsstring"
  urlEnv :: url_env
  styleWithoutDisplay :: "jsstring option \<Rightarrow> jsstring option"

text \<open>
  \<^verbatim>\<open>
  function isMirrored( id ) {
      if (!articleList && id && id.indexOf(':') >= 0) {
          let namespace = namespaces[id.substring(0, id.indexOf(':')).replace(/ /g, '_')];
          if (namespace != undefined) { return namespace.isContent }
      }
      return ( id in articleIds );
  }
  \<close>
\<close>

definition isMirrored :: "rewriter_env \<Rightarrow> jsstring \<Rightarrow> bool" where
  "isMirrored env ident =
     (case (if \<not> articleList env \<and> ident \<noteq> [] \<and> 0x3A \<in> set ident
            then namespaces env
                   (map (\<lambda>c. if c = 0x20 then 0x5F else c) (takeWhile (\<lambda>c. c \<noteq> 0x3A) ident))
            else None) of
        Some isContent \<Rightarrow> isContent
      | None \<Rightarrow> articleIds env ident)"

definition contains :: "jsstring \<Rightarrow> jsstring \<Rightarrow> bool" where
  "contains needle s \<longleftrightarrow>
     list_ex (\<lambda>k. take (length needle) (drop k s) = needle) [0 ..< Suc (length s)]"

definition isTag :: "jsstring \<Rightarrow> jsstring \<Rightarrow> attrs \<Rightarrow> bool" where
  "isTag name t as \<longleftrightarrow> t = name"

definition isAsciiSpace :: "code_unit \<Rightarrow> bool" where
  "isAsciiSpace c \<longleftrightarrow> c = 0x20 \<or> c = 0x9 \<or> c = 0xA \<or> c = 0xC \<or> c = 0xD"

fun tokens :: "jsstring \<Rightarrow> jsstring list" where
  "tokens [] = [[]]"
| "tokens (c # cs) =
     (if isAsciiSpace c then [] # tokens cs
      else (case tokens cs of tok # toks \<Rightarrow> (c # tok) # toks | [] \<Rightarrow> [[c]]))"

definition hasClass :: "jsstring \<Rightarrow> jsstring \<Rightarrow> attrs \<Rightarrow> bool" where
  "hasClass classname t as \<longleftrightarrow>
     (case getAttribute as (js ''class'') of
        None \<Rightarrow> False
      | Some c \<Rightarrow> classname \<noteq> [] \<and> classname \<in> set (tokens c))"

definition hasId :: "jsstring \<Rightarrow> jsstring \<Rightarrow> attrs \<Rightarrow> bool" where
  "hasId ident t as \<longleftrightarrow> getAttribute as (js ''id'') = Some ident"
subsection \<open>treatMediaElementsForSection\<close>

text \<open>
  \<^verbatim>\<open>
  function treatMediaElementsForSection(dom) {
      const imgs = dom.getElementsByTagName('img');
      let imgSrcCache = {};
      for (let i = 0; i < imgs.length; i++) {
          let img = imgs[i];
          let imageNodeClass = img.getAttribute('class') || '';
          if ((!nopic ||
                  imageNodeClass.search('mwe-math-fallback-image-inline') >= 0 ||
                  img.getAttribute('typeof') == 'mw:Extension/math'
              ) &&
              img.getAttribute('src') &&
              img.getAttribute('src').indexOf('./Special:FilePath/') != 0
          ) {
              /* Remove image link */
              let linkNode = img.parentNode;
              if (linkNode.tagName === 'A') {
                  /* Check if the target is mirrored */
                  let href = linkNode.getAttribute('href') || '';
                  let targetId = extractTargetIdFromHref(href);
                  let keepLink = targetId && isMirrored(targetId);
                  if (!keepLink) {
                      if (linkNode.parentNode) {
                          linkNode.parentNode.replaceChild(img, linkNode);
                      } else {
                          util.deleteNode(img);
                      }
                  }
              }
              /* Rewrite image src attribute */
              if (img) {
                  let src = getFullUrl(img.getAttribute('src'));
                  let newSrc = getMediaUrl(src);
                  if (newSrc) {
                      /* Download image, but avoid duplicate calls */
                      if (!imgSrcCache.hasOwnProperty(src)) {
                          imgSrcCache[src] = true;
                          downloadFileQueue.push(src);
                      }
                      img.setAttribute('src', newSrc);
                      img.removeAttribute('resource');
                      img.removeAttribute('srcset');
                  } else {
                      util.deleteNode(img);
                  }
              }
          } else {
              util.deleteNode(img);
          }
      }
  }

  function deleteNode( node ) {
      if (node.parentNode) {
          node.parentNode.removeChild(node);
      } else {
          node.outerHTML = '';
      }
      node = undefined;
  }
  \<close>
  The loop visits every image that was in the document at the start. A turn may find its
  image outside the document: \<open>replaceChild\<close> takes a link out of the document with all
  that is in it except the one image, and \<open>deleteNode\<close> an image with all that is in it.
  A detached node keeps its children, and its descendants keep their parents. So the state
  is the forest under \<open>body\<close> together with the detached trees; the root of a detached
  tree has no parent, an element at the top of the forest under \<open>body\<close> has \<open>body\<close>.
  Setting \<open>outerHTML\<close> of a node without a parent does nothing.
\<close>

record media_state =
  body :: "node list"
  detached :: "node list"
  imgSrcCache :: "jsstring list"
  downloadFileQueue :: "jsstring list"

datatype parent = NoParent | BodyParent | ElementParent node

definition lookup :: "media_state \<Rightarrow> nat \<Rightarrow> node option" where
  "lookup st i = findL i (body st @ detached st)"

definition parentNode :: "media_state \<Rightarrow> nat \<Rightarrow> parent" where
  "parentNode st i =
     (if list_ex (isElem i) (body st) then BodyParent
      else (case parentL i (body st @ detached st) of
              Some p \<Rightarrow> ElementParent p
            | None \<Rightarrow> NoParent))"

definition deleteNode :: "nat \<Rightarrow> media_state \<Rightarrow> media_state" where
  "deleteNode i st =
     (if parentNode st i = NoParent then st
      else st\<lparr>body := removeL i (body st),
              detached := map (inside (removeL i)) (detached st) @
                          (case lookup st i of Some n \<Rightarrow> [n] | None \<Rightarrow> [])\<rparr>)"

text \<open>\<open>linkNode.parentNode.replaceChild(img, linkNode)\<close> for the image \<open>i\<close>, a child of the
  link \<open>l\<close>: the link is detached, with what is left in it.\<close>

definition replaceChild :: "nat \<Rightarrow> nat \<Rightarrow> media_state \<Rightarrow> media_state" where
  "replaceChild i l st =
     st\<lparr>body := unwrapL l i (body st),
        detached := map (inside (unwrapL l i)) (detached st) @
                    (case lookup st l of
                       Some (Element j t as cs) \<Rightarrow> [Element j t as (filter (\<lambda>c. \<not> isElem i c) cs)]
                     | _ \<Rightarrow> [])\<rparr>"

definition isMathImg :: "attrs \<Rightarrow> bool" where
  "isMathImg as \<longleftrightarrow>
     contains (js ''mwe-math-fallback-image-inline'')
       (case getAttribute as (js ''class'') of None \<Rightarrow> [] | Some c \<Rightarrow> c) \<or>
     getAttribute as (js ''typeof'') = Some (js ''mw:Extension/math'')"

definition usableSrc :: "attrs \<Rightarrow> bool" where
  "usableSrc as \<longleftrightarrow>
     (case getAttribute as (js ''src'') of
        None \<Rightarrow> False
      | Some src \<Rightarrow> src \<noteq> [] \<and> \<not> indexOf_is_0 src (js ''./Special:FilePath/''))"

definition imgCondition :: "rewriter_env \<Rightarrow> attrs \<Rightarrow> bool" where
  "imgCondition env as \<longleftrightarrow> (\<not> nopic env \<or> isMathImg as) \<and> usableSrc as"

definition truthy :: "jsval \<Rightarrow> bool" where
  "truthy v = (case v of Undefined \<Rightarrow> False | Str s \<Rightarrow> s \<noteq> [])"

definition keepLink :: "rewriter_env \<Rightarrow> attrs \<Rightarrow> js_error + bool" where
  "keepLink env linkAttrs =
     (let href = (case getAttribute linkAttrs (js ''href'') of
                    None \<Rightarrow> [] | Some h \<Rightarrow> h)
      in case extractTargetIdFromHref (webUrlPath env) (parsePathname env) href of
           Inl error \<Rightarrow> Inl error
         | Inr targetId \<Rightarrow>
             Inr (truthy targetId \<and>
                  isMirrored env (case targetId of Str s \<Rightarrow> s | Undefined \<Rightarrow> [])))"

definition rewriteImg :: "jsstring \<Rightarrow> attrs \<Rightarrow> attrs" where
  "rewriteImg newSrc as =
     removeAttribute (js ''srcset'') (removeAttribute (js ''resource'')
       (setAttribute (js ''src'') newSrc as))"

definition srcOf :: "rewriter_env \<Rightarrow> attrs \<Rightarrow> jsstring" where
  "srcOf env as =
     getFullUrl env (case getAttribute as (js ''src'') of None \<Rightarrow> [] | Some s \<Rightarrow> s)"

text \<open>The block under \<open>/* Rewrite image src attribute */\<close>, for the image \<open>i\<close> with the
  attributes \<open>as\<close>.\<close>

definition rewriteSrc :: "rewriter_env \<Rightarrow> nat \<Rightarrow> attrs \<Rightarrow> media_state \<Rightarrow> js_error + media_state" where
  "rewriteSrc env i as st =
     (let src = srcOf env as
      in case getMediaUrl (mediaExec env) (md5hex env) src of
           Inl error \<Rightarrow> Inl error
         | Inr (Some newSrc) \<Rightarrow>
             Inr (st\<lparr>body := updateL i (rewriteImg newSrc) (body st),
                      detached := updateL i (rewriteImg newSrc) (detached st),
                      imgSrcCache :=
                        (if src \<in> set (imgSrcCache st) then imgSrcCache st
                         else imgSrcCache st @ [src]),
                      downloadFileQueue :=
                        (if src \<in> set (imgSrcCache st) then downloadFileQueue st
                         else downloadFileQueue st @ [src])\<rparr>)
         | Inr None \<Rightarrow> Inr (deleteNode i st))"

text \<open>One turn of the loop, for the image \<open>i\<close>. An image without a parent has \<open>null\<close> for
  \<open>linkNode\<close>, and reading \<open>tagName\<close> of it throws.\<close>

definition treat_img :: "rewriter_env \<Rightarrow> nat \<Rightarrow> media_state \<Rightarrow> js_error + media_state" where
  "treat_img env i st =
     (case lookup st i of
        Some (Element j t as cs) \<Rightarrow>
          if imgCondition env as
          then
            (case parentNode st i of
               NoParent \<Rightarrow> Inl TypeError
             | BodyParent \<Rightarrow> rewriteSrc env i as st
             | ElementParent linkNode \<Rightarrow>
                 (case linkNode of
                    Element l lt las lcs \<Rightarrow>
                      if lt = js ''a''
                      then (case keepLink env las of
                              Inl error \<Rightarrow> Inl error
                            | Inr keep \<Rightarrow>
                                if keep then rewriteSrc env i as st
                                else if parentNode st l \<noteq> NoParent
                                then rewriteSrc env i as (replaceChild i l st)
                                else rewriteSrc env i as (deleteNode i st))
                      else rewriteSrc env i as st
                  | Text s \<Rightarrow> rewriteSrc env i as st))
          else Inr (deleteNode i st)
      | _ \<Rightarrow> Inr st)"

fun treatMedia_loop :: "rewriter_env \<Rightarrow> nat list \<Rightarrow> media_state \<Rightarrow> js_error + media_state" where
  "treatMedia_loop env [] st = Inr st"
| "treatMedia_loop env (i # imgs) st =
     (case treat_img env i st of
        Inl error \<Rightarrow> Inl error
      | Inr st' \<Rightarrow> treatMedia_loop env imgs st')"

definition treatMediaElementsForSection ::
  "rewriter_env \<Rightarrow> jsstring list \<Rightarrow> node list \<Rightarrow> js_error + media_state" where
  "treatMediaElementsForSection env queue d =
     treatMedia_loop env (idsOf (isTag (js ''img'')) d)
       \<lparr>body = d, detached = [], imgSrcCache = [], downloadFileQueue = queue\<rparr>"

subsection \<open>rewriteUrls\<close>

text \<open>
  \<^verbatim>\<open>
  let as = dom.getElementsByTagName('a');
  let areas = dom.getElementsByTagName('area');
  let linkNodes = Array.prototype.slice.call(as).concat(Array.prototype.slice.call(areas));
  for (let i = 0; i < linkNodes.length; i++) { rewriteUrl(linkNodes[i]); }
  \<close>
  \<open>rewriteUrl\<close> only sets \<open>href\<close> attributes, so every link stays in the document. This
  pass and the next are modelled on the forest under \<open>body\<close> alone: what they do to a node
  that is no longer in the document does not change the document.
\<close>

definition rewriteUrl_at :: "rewriter_env \<Rightarrow> node list \<Rightarrow> nat \<Rightarrow> node list" where
  "rewriteUrl_at env d i =
     (case findL i d of
        Some (Element j t as cs) \<Rightarrow>
          (case rewriteUrl (urlEnv env) (getAttribute as (js ''href'')) of
             Some href \<Rightarrow> updateL i (setAttribute (js ''href'') href) d
           | None \<Rightarrow> d)
      | _ \<Rightarrow> d)"

definition rewriteUrls :: "rewriter_env \<Rightarrow> node list \<Rightarrow> node list" where
  "rewriteUrls env d =
     foldl (rewriteUrl_at env) d (idsOf (isTag (js ''a'')) d @ idsOf (isTag (js ''area'')) d)"

subsection \<open>applyOtherTreatments\<close>

text \<open>
  \<^verbatim>\<open>
  function applyOtherTreatments(dom) {
      if (nopic) {
          let maps = dom.getElementsByTagName('map');
          for (let i = 0; i < maps.length; i++) { util.deleteNode(maps[i]); }
      }
      idBlackList.map(function (id) {
          let node = dom.getElementById(id);
          if (node) { util.deleteNode(node); }
      });
      cssClassBlackList.map(function (classname) {
          let nodes = dom.getElementsByClassName(classname);
          for (let i = 0; i < nodes.length; i++) { util.deleteNode(nodes[i]); }
      });
      cssClassBlackListIfNoLink.map(function (classname) {
          let nodes = dom.getElementsByClassName(classname);
          for (let i = 0; i < nodes.length; i++) {
              if (nodes[i].getElementsByTagName('a').length === 0) { util.deleteNode(nodes[i]); }
          }
      });
      cssClassDisplayList.map(function (classname) {
          let nodes = dom.getElementsByClassName(classname);
          for (let i = 0; i < nodes.length; i++) { nodes[i].style.removeProperty('display'); }
      });
  }
  \<close>
  \<open>deleteLoop P cond\<close> is a loop over the elements that satisfy \<open>P\<close>, deleting those for
  which \<open>cond\<close> holds when their turn comes. An element that an earlier turn has taken out
  of the document, inside a deleted one, is still visited, but whatever is done to it the
  document stays as it is. \<open>getElementById\<close> gives the first element of the document with
  the id. What \<open>style.removeProperty('display')\<close> makes of a \<open>style\<close> attribute is the
  DOM library's (\<open>styleWithoutDisplay\<close>, from and to the attribute's value, if any).
\<close>

definition idBlackList :: "jsstring list" where
  "idBlackList = [js ''purgelink'']"

definition cssClassBlackList :: "jsstring list" where
  "cssClassBlackList =
     [js ''noprint'', js ''metadata'', js ''ambox'', js ''stub'', js ''topicon'', js ''magnify'',
      js ''navbar'', js ''mwe-math-mathml-inline'']"

definition cssClassBlackListIfNoLink :: "jsstring list" where
  "cssClassBlackListIfNoLink =
     [js ''mainarticle'', js ''seealso'', js ''dablink'', js ''rellink'', js ''hatnote'']"

definition cssClassDisplayList :: "jsstring list" where
  "cssClassDisplayList = [js ''thumb'']"

definition always :: "node \<Rightarrow> bool" where
  "always n = True"

definition noLink :: "node \<Rightarrow> bool" where
  "noLink n \<longleftrightarrow> countL (isTag (js ''a'')) (children n) = 0"

definition deleteIf :: "(node \<Rightarrow> bool) \<Rightarrow> node list \<Rightarrow> nat \<Rightarrow> node list" where
  "deleteIf cond d i =
     (case findL i d of
        Some n \<Rightarrow> if cond n then removeL i d else d
      | None \<Rightarrow> d)"

definition deleteLoop ::
  "(jsstring \<Rightarrow> attrs \<Rightarrow> bool) \<Rightarrow> (node \<Rightarrow> bool) \<Rightarrow> node list \<Rightarrow> node list" where
  "deleteLoop P cond d = foldl (deleteIf cond) d (idsOf P d)"

definition deleteById :: "node list \<Rightarrow> jsstring \<Rightarrow> node list" where
  "deleteById d ident =
     (case idsOf (hasId ident) d of [] \<Rightarrow> d | i # others \<Rightarrow> removeL i d)"

definition styleUpdate :: "rewriter_env \<Rightarrow> attrs \<Rightarrow> attrs" where
  "styleUpdate env as =
     (case styleWithoutDisplay env (getAttribute as (js ''style'')) of
        None \<Rightarrow> removeAttribute (js ''style'') as
      | Some v \<Rightarrow> setAttribute (js ''style'') v as)"

definition displayLoop :: "rewriter_env \<Rightarrow> node list \<Rightarrow> jsstring \<Rightarrow> node list" where
  "displayLoop env d classname =
     foldl (\<lambda>d' i. updateL i (styleUpdate env) d') d (idsOf (hasClass classname) d)"

definition applyOtherTreatments :: "rewriter_env \<Rightarrow> node list \<Rightarrow> node list" where
  "applyOtherTreatments env d =
     (let d1 = (if nopic env then deleteLoop (isTag (js ''map'')) always d else d);
          d2 = foldl deleteById d1 idBlackList;
          d3 = foldl (\<lambda>d' classname. deleteLoop (hasClass classname) always d') d2
                 cssClassBlackList;
          d4 = foldl (\<lambda>d' classname. deleteLoop (hasClass classname) noLink d') d3
                 cssClassBlackListIfNoLink
      in foldl (displayLoop env) d4 cssClassDisplayList)"

subsection \<open>transformSection\<close>

text \<open>
  \<^verbatim>\<open>
  function transformSection(dom) {
      treatMediaElementsForSection(dom);
      rewriteUrls(dom);
      applyOtherTreatments(dom);
      return dom.body.innerHTML;
  }
  \<close>
  \<open>transformDoc\<close> is the document after the three passes, \<open>innerHTML\<close> its serialisation.
\<close>

definition transformDoc :: "rewriter_env \<Rightarrow> node list \<Rightarrow> js_error + node list" where
  "transformDoc env d =
     (case treatMediaElementsForSection env [] d of
        Inl error \<Rightarrow> Inl error
      | Inr st \<Rightarrow> Inr (applyOtherTreatments env (rewriteUrls env (body st))))"

definition escapeText :: "jsstring \<Rightarrow> jsstring" where
  "escapeText s =
     concat (map (\<lambda>c. if c = 0x26 then js ''&amp;'' else if c = 0x3C then js ''&lt;''
                       else if c = 0x3E then js ''&gt;'' else if c = 0xA0 then js ''&nbsp;''
                       else [c]) s)"

definition escapeAttr :: "jsstring \<Rightarrow> jsstring" where
  "escapeAttr s =
     concat (map (\<lambda>c. if c = 0x26 then js ''&amp;'' else if c = 0x22 then js ''&quot;''
                       else if c = 0xA0 then js ''&nbsp;'' else [c]) s)"

definition voidElements :: "jsstring list" where
  "voidElements =
     [js ''area'', js ''base'', js ''br'', js ''col'', js ''embed'', js ''hr'', js ''img'',
      js ''input'', js ''link'', js ''meta'', js ''param'', js ''source'', js ''track'',
      js ''wbr'']"

definition rawTextElements :: "jsstring list" where
  "rawTextElements =
     [js ''style'', js ''script'', js ''xmp'', js ''iframe'', js ''noembed'', js ''noframes'',
      js ''plaintext'']"

fun serialize :: "bool \<Rightarrow> node \<Rightarrow> jsstring" where
  "serialize raw (Text s) = (if raw then s else escapeText s)"
| "serialize raw (Element i t as cs) =
     js ''<'' @ t @
     concat (map (\<lambda>(k, v). js '' '' @ k @ js ''=\"'' @ escapeAttr v @ js ''\"'') as) @
     js ''>'' @
     (if t \<in> set voidElements then []
      else concat (map (serialize (t \<in> set rawTextElements)) cs) @ js ''</'' @ t @ js ''>'')"

definition innerHTML :: "node list \<Rightarrow> jsstring" where
  "innerHTML d = concat (map (serialize False) d)"

definition transformSection :: "rewriter_env \<Rightarrow> node list \<Rightarrow> js_error + jsstring" where
  "transformSection env d = map_sum id innerHTML (transformDoc env d)"
subsection \<open>Elements of a forest\<close>

lemma labelsL_simps [simp]:
  "labelsL [] = []" "labelsL (n # ns) = labels n @ labelsL ns"
  "labelsL (ms @ ns) = labelsL ms @ labelsL ns"
  by (simp_all add: labelsL_def)

lemma elementsL_simps [simp]:
  "elementsL [] = []" "elementsL (n # ns) = elements n @ elementsL ns"
  "elementsL (ms @ ns) = elementsL ms @ elementsL ns"
  by (simp_all add: elementsL_def)

lemma removeL_simps [simp]:
  "removeL i [] = []" "removeL i (n # ns) = remove i n @ removeL i ns"
  "removeL i (ms @ ns) = removeL i ms @ removeL i ns"
  by (simp_all add: removeL_def)

lemma unwrapL_simps [simp]:
  "unwrapL l i [] = []" "unwrapL l i (n # ns) = unwrap l i n @ unwrapL l i ns"
  "unwrapL l i (ms @ ns) = unwrapL l i ms @ unwrapL l i ns"
  by (simp_all add: unwrapL_def)

lemma updateL_simps [simp]:
  "updateL i g [] = []" "updateL i g (n # ns) = update i g n # updateL i g ns"
  "updateL i g (ms @ ns) = updateL i g ms @ updateL i g ns"
  by (simp_all add: updateL_def)

lemma labels_Element: "labels (Element i t as cs) = (i, t, as) # labelsL cs"
  by (simp add: labelsL_def)

lemma elements_Element: "elements (Element i t as cs) = Element i t as cs # elementsL cs"
  by (simp add: elementsL_def)

lemma remove_Element:
  "remove i (Element j t as cs) = (if j = i then [] else [Element j t as (removeL i cs)])"
  by (simp add: removeL_def)

lemma unwrap_Element:
  "unwrap l i (Element j t as cs) =
     (if j = l then filter (isElem i) cs else [Element j t as (unwrapL l i cs)])"
  by (simp add: unwrapL_def)

lemma update_Element:
  "update i g (Element j t as cs) = Element j t (if j = i then g as else as) (updateL i g cs)"
  by (simp add: updateL_def)

declare labels.simps(2) [simp del] elements.simps(2) [simp del] remove.simps(2) [simp del]
  unwrap.simps(2) [simp del] update.simps(2) [simp del]

declare labels_Element [simp] elements_Element [simp] remove_Element [simp]
  unwrap_Element [simp] update_Element [simp]

fun label :: "node \<Rightarrow> nat \<times> jsstring \<times> attrs" where
  "label (Element i t as cs) = (i, t, as)"
| "label (Text s) = (0, [], [])"

text \<open>Induction over a node and a list of siblings together.\<close>

lemma node_forest_induct [case_names Text Element Nil Cons]:
  assumes "\<And>s. P (Text s)"
    and "\<And>i t as cs. Q cs \<Longrightarrow> P (Element i t as cs)"
    and "Q []"
    and "\<And>n ns. P n \<Longrightarrow> Q ns \<Longrightarrow> Q (n # ns)"
  shows "P n" and "Q ns"
proof -
  show n: "P n" for n
  proof (induction n)
    case (Element i t as cs)
    have "Q cs" using Element
    proof (induction cs)
      case Nil
      show ?case by (rule assms(3))
    next
      case (Cons c cs)
      show ?case by (rule assms(4)) (simp_all add: Cons)
    qed
    then show ?case by (rule assms(2))
  next
    case (Text s)
    show ?case by (rule assms(1))
  qed
  show "Q ns"
  proof (induction ns)
    case Nil
    show ?case by (rule assms(3))
  next
    case (Cons c cs)
    show ?case by (rule assms(4)) (rule n, rule Cons)
  qed
qed

lemma labels_elements: "labels n = map label (elements n)"
  and labelsL_elementsL: "labelsL ns = map label (elementsL ns)"
  by (induction n and ns rule: node_forest_induct) simp_all
lemma subseq_set: "subseq xs ys \<Longrightarrow> set xs \<subseteq> set ys"
  by (induction rule: list_emb.induct) auto

lemma subseq_distinct: "subseq xs ys \<Longrightarrow> distinct ys \<Longrightarrow> distinct xs"
proof (induction rule: list_emb.induct)
  case (list_emb_Cons2 x y xs ys)
  then show ?case using subseq_set [of xs ys] by auto
qed simp_all

lemma elements_are_elements:
  "m \<in> set (elements n) \<Longrightarrow> \<exists>i t as cs. m = Element i t as cs"
  "m \<in> set (elementsL ns) \<Longrightarrow> \<exists>i t as cs. m = Element i t as cs"
  by (induction n and ns rule: node_forest_induct) auto

lemma isElem_label: "isElem i (Element j t as cs) \<longleftrightarrow> fst (label (Element j t as cs)) = i"
  by simp

lemma find_Some_set: "find P xs = Some x \<Longrightarrow> x \<in> set xs \<and> P x"
  by (induction xs) (auto split: if_splits)

lemma findL_Some:
  "findL i ns = Some n \<Longrightarrow> n \<in> set (elementsL ns) \<and> (\<exists>t as cs. n = Element i t as cs)"
proof -
  assume "findL i ns = Some n"
  then have m: "n \<in> set (elementsL ns)" and e: "isElem i n"
    using find_Some_set [of "isElem i" "elementsL ns" n] by (simp_all add: findL_def)
  from e have "\<exists>t as cs. n = Element i t as cs" by (cases n) simp_all
  with m show ?thesis by simp
qed

lemma findL_None: "findL i ns = None \<longleftrightarrow> i \<notin> fst ` set (labelsL ns)"
proof -
  have "(\<exists>n \<in> set (elementsL ns). isElem i n) \<longleftrightarrow> i \<in> fst ` label ` set (elementsL ns)"
    using elements_are_elements(2) [of _ ns] by (force simp: image_iff)
  then show ?thesis by (auto simp: findL_def find_None_iff labelsL_elementsL)
qed

lemma subtree_labels:
  "m \<in> set (elements n) \<Longrightarrow> set (labels m) \<subseteq> set (labels n)"
  "m \<in> set (elementsL ns) \<Longrightarrow> set (labels m) \<subseteq> set (labelsL ns)"
  by (induction n and ns rule: node_forest_induct) auto

lemma element_label:
  "m \<in> set (elementsL ns) \<Longrightarrow> label m \<in> set (labelsL ns)"
  by (simp add: labelsL_elementsL)

lemma wellFormed_unique:
  "wellFormed ns \<Longrightarrow> (i, t, as) \<in> set (labelsL ns) \<Longrightarrow> (i, t', as') \<in> set (labelsL ns) \<Longrightarrow>
   t' = t \<and> as' = as"
  unfolding wellFormed_def using eq_key_imp_eq_value [of "labelsL ns" i "(t, as)" "(t', as')"]
  by simp

subsection \<open>What the changes do to the elements\<close>

lemma labelsL_filter: "subseq (labelsL (filter P ns)) (labelsL ns)"
  by (induction ns) (auto intro: list_emb_append_mono list_emb_append2)

lemma remove_subseq:
  "subseq (labelsL (remove i n)) (labels n)"
  "subseq (labelsL (removeL i ns)) (labelsL ns)"
  by (induction n and ns rule: node_forest_induct) (auto intro: list_emb_append_mono)

lemma remove_absent:
  "i \<notin> fst ` set (labelsL (remove i n))"
  "i \<notin> fst ` set (labelsL (removeL i ns))"
  by (induction n and ns rule: node_forest_induct) auto

lemma unwrap_subseq:
  "subseq (labelsL (unwrap l i n)) (labels n)"
  "subseq (labelsL (unwrapL l i ns)) (labelsL ns)"
  by (induction n and ns rule: node_forest_induct)
     (auto intro: list_emb_append_mono labelsL_filter)

definition relabel :: "nat \<Rightarrow> (attrs \<Rightarrow> attrs) \<Rightarrow> nat \<times> jsstring \<times> attrs \<Rightarrow> nat \<times> jsstring \<times> attrs" where
  "relabel i g x = (case x of (j, t, as) \<Rightarrow> (j, t, if j = i then g as else as))"

lemma update_labels:
  "labels (update i g n) = map (relabel i g) (labels n)"
  "labelsL (updateL i g ns) = map (relabel i g) (labelsL ns)"
  by (induction n and ns rule: node_forest_induct) (simp_all add: relabel_def)

lemma fst_relabel [simp]: "fst (relabel i g x) = fst x"
  by (cases x) (simp add: relabel_def)

lemma removeL_set: "set (labelsL (removeL i ns)) \<subseteq> set (labelsL ns)"
  by (rule subseq_set) (rule remove_subseq)

lemma unwrapL_set: "set (labelsL (unwrapL l i ns)) \<subseteq> set (labelsL ns)"
  by (rule subseq_set) (rule unwrap_subseq)

lemma wellFormed_removeL: "wellFormed ns \<Longrightarrow> wellFormed (removeL i ns)"
  unfolding wellFormed_def
  by (rule subseq_distinct [OF subseq_map [OF remove_subseq(2)]])

lemma wellFormed_unwrapL: "wellFormed ns \<Longrightarrow> wellFormed (unwrapL l i ns)"
  unfolding wellFormed_def
  by (rule subseq_distinct [OF subseq_map [OF unwrap_subseq(2)]])

lemma wellFormed_updateL: "wellFormed (updateL i g ns) = wellFormed ns"
  by (simp add: wellFormed_def update_labels comp_def)

lemma remove_absent_id: "i \<notin> fst ` set (labels n) \<Longrightarrow> remove i n = [n]"
  and removeL_absent: "i \<notin> fst ` set (labelsL ns) \<Longrightarrow> removeL i ns = ns"
  by (induction n and ns rule: node_forest_induct) (auto simp: image_Un)

lemma updateL_fixed:
  "\<forall>(j, t, as) \<in> set (labels n). j = i \<longrightarrow> g as = as \<Longrightarrow> update i g n = n"
  "\<forall>(j, t, as) \<in> set (labelsL ns). j = i \<longrightarrow> g as = as \<Longrightarrow> updateL i g ns = ns"
  by (induction n and ns rule: node_forest_induct) auto
subsection \<open>What a turn of the image loop keeps\<close>

lemma find_append:
  "find P (xs @ ys) = (case find P xs of Some x \<Rightarrow> Some x | None \<Rightarrow> find P ys)"
  by (induction xs) simp_all

lemma has_parent:
  "i \<in> fst ` set (labels n) \<Longrightarrow>
   isElem i n \<or> (\<exists>p \<in> set (elements n). list_ex (isElem i) (children p))"
  "i \<in> fst ` set (labelsL ns) \<Longrightarrow>
   list_ex (isElem i) ns \<or> (\<exists>p \<in> set (elementsL ns). list_ex (isElem i) (children p))"
  by (induction n and ns rule: node_forest_induct) (auto simp: image_Un)

lemma no_parent_not_in_body:
  assumes "parentNode st i = NoParent"
  shows "i \<notin> fst ` set (labelsL (body st))"
proof
  assume "i \<in> fst ` set (labelsL (body st))"
  from has_parent(2) [OF this] assms show False
    by (auto simp: parentNode_def parentL_def find_append find_None_iff
        split: if_splits option.splits)
qed

lemma lookup_Some:
  "lookup st i = Some n \<Longrightarrow>
   (\<exists>t as cs. n = Element i t as cs) \<and> set (labels n) \<subseteq> set (labelsL (body st @ detached st))"
  using findL_Some [of i "body st @ detached st" n] subtree_labels(2) [of n "body st @ detached st"]
  by (simp add: lookup_def)

lemma inside_labels:
  "(\<And>cs. set (labelsL (f cs)) \<subseteq> set (labelsL cs)) \<Longrightarrow>
   set (labelsL (map (inside f) ns)) \<subseteq> set (labelsL ns)"
proof (induction ns)
  case (Cons n ns)
  have "set (labels (inside f n)) \<subseteq> set (labels n)"
    using Cons.prems by (cases n) (auto simp: inside_def)
  with Cons show ?case by auto
qed simp

lemma deleteNode_labels:
  "set (labelsL (body (deleteNode i st) @ detached (deleteNode i st))) \<subseteq>
     set (labelsL (body st @ detached st))"
  "set (labelsL (body (deleteNode i st))) \<subseteq> {x \<in> set (labelsL (body st)). fst x \<noteq> i}"
proof -
  have d: "set (labelsL (map (inside (removeL i)) (detached st))) \<subseteq> set (labelsL (detached st))"
    by (rule inside_labels) (rule removeL_set)
  show "set (labelsL (body (deleteNode i st) @ detached (deleteNode i st))) \<subseteq>
      set (labelsL (body st @ detached st))"
    using d removeL_set [of i "body st"] lookup_Some [of st i]
    by (auto simp: deleteNode_def split: option.splits)
  show "set (labelsL (body (deleteNode i st))) \<subseteq> {x \<in> set (labelsL (body st)). fst x \<noteq> i}"
    using removeL_set [of i "body st"] remove_absent(2) [of i "body st"]
      no_parent_not_in_body [of st i]
    by (auto simp: deleteNode_def image_iff)
qed

lemma replaceChild_labels:
  "set (labelsL (body (replaceChild i l st) @ detached (replaceChild i l st))) \<subseteq>
     set (labelsL (body st @ detached st))"
  "set (labelsL (body (replaceChild i l st))) \<subseteq> set (labelsL (body st))"
proof -
  have d: "set (labelsL (map (inside (unwrapL l i)) (detached st))) \<subseteq> set (labelsL (detached st))"
    by (rule inside_labels) (rule unwrapL_set)
  have f: "set (labels (Element j t as (filter P cs))) \<subseteq> set (labels (Element j t as cs))"
    for j t as P cs
    using subseq_set [OF labelsL_filter [of P cs]] by auto
  show "set (labelsL (body (replaceChild i l st) @ detached (replaceChild i l st))) \<subseteq>
      set (labelsL (body st @ detached st))"
  proof (cases "lookup st l")
    case None
    then show ?thesis using d unwrapL_set [of l i "body st"] by (auto simp: replaceChild_def)
  next
    case (Some n)
    from lookup_Some [OF Some] obtain t as cs where n: "n = Element l t as cs"
      and s: "set (labels n) \<subseteq> set (labelsL (body st @ detached st))" by auto
    from s f [of l t as "\<lambda>c. \<not> isElem i c" cs] n
    have "set (labels (Element l t as (filter (\<lambda>c. \<not> isElem i c) cs))) \<subseteq>
        set (labelsL (body st @ detached st))" by blast
    then show ?thesis using d unwrapL_set [of l i "body st"] Some n
      by (simp add: replaceChild_def) blast
  qed
  show "set (labelsL (body (replaceChild i l st))) \<subseteq> set (labelsL (body st))"
    using unwrapL_set [of l i "body st"] by (simp add: replaceChild_def)
qed

text \<open>
  \<open>kept env as0 as\<close>: an image with the attributes \<open>as0\<close> passes the test of the loop, a
  local path is derived from its source, and \<open>as\<close> are its attributes rewritten for that
  path. While the loop runs over the images of \<open>d\<close>, with \<open>pending\<close> still to come, every
  element there is has its attributes of \<open>d\<close>, or it is an image that has had its turn and
  was kept (\<open>originals\<close>); and an image in the document then is still to come or was kept
  (\<open>treated\<close>).
\<close>

definition kept :: "rewriter_env \<Rightarrow> attrs \<Rightarrow> attrs \<Rightarrow> bool" where
  "kept env as0 as \<longleftrightarrow>
     imgCondition env as0 \<and>
     (\<exists>newSrc. getMediaUrl (mediaExec env) (md5hex env) (srcOf env as0) = Inr (Some newSrc) \<and>
                as = rewriteImg newSrc as0)"

definition originals :: "rewriter_env \<Rightarrow> node list \<Rightarrow> nat list \<Rightarrow> media_state \<Rightarrow> bool" where
  "originals env d pending st \<longleftrightarrow>
     (\<forall>(j, t, as) \<in> set (labelsL (body st @ detached st)).
        \<exists>as0. (j, t, as0) \<in> set (labelsL d) \<and> (as = as0 \<or> j \<notin> set pending \<and> kept env as0 as))"

definition treated :: "rewriter_env \<Rightarrow> node list \<Rightarrow> nat list \<Rightarrow> media_state \<Rightarrow> bool" where
  "treated env d pending st \<longleftrightarrow>
     (\<forall>(j, t, as) \<in> set (labelsL (body st)).
        t = js ''img'' \<longrightarrow>
        j \<in> set pending \<or> (\<exists>as0. (j, t, as0) \<in> set (labelsL d) \<and> kept env as0 as))"

lemma originalsI:
  "(\<And>j t as. (j, t, as) \<in> set (labelsL (body st)) \<union> set (labelsL (detached st)) \<Longrightarrow>
      \<exists>as0. (j, t, as0) \<in> set (labelsL d) \<and> (as = as0 \<or> j \<notin> set pending \<and> kept env as0 as)) \<Longrightarrow>
   originals env d pending st"
  unfolding originals_def by auto

lemma originalsD:
  "originals env d pending st \<Longrightarrow>
   (j, t, as) \<in> set (labelsL (body st)) \<union> set (labelsL (detached st)) \<Longrightarrow>
   \<exists>as0. (j, t, as0) \<in> set (labelsL d) \<and> (as = as0 \<or> j \<notin> set pending \<and> kept env as0 as)"
  unfolding originals_def by (simp only: labelsL_simps set_append) blast

lemma treatedI:
  "(\<And>j as. (j, js ''img'', as) \<in> set (labelsL (body st)) \<Longrightarrow> j \<notin> set pending \<Longrightarrow>
      \<exists>as0. (j, js ''img'', as0) \<in> set (labelsL d) \<and> kept env as0 as) \<Longrightarrow>
   treated env d pending st"
  unfolding treated_def by auto

lemma treatedD:
  "treated env d pending st \<Longrightarrow> (j, js ''img'', as) \<in> set (labelsL (body st)) \<Longrightarrow>
   j \<notin> set pending \<Longrightarrow> \<exists>as0. (j, js ''img'', as0) \<in> set (labelsL d) \<and> kept env as0 as"
  unfolding treated_def by blast

lemma inv_subset:
  assumes "set (labelsL (body st')) \<union> set (labelsL (detached st')) \<subseteq>
      set (labelsL (body st)) \<union> set (labelsL (detached st))"
    and "set (labelsL (body st')) \<subseteq> set (labelsL (body st))"
  shows "originals env d pending st \<Longrightarrow> originals env d pending st'"
    and "treated env d pending st \<Longrightarrow> treated env d pending st'"
proof -
  assume o: "originals env d pending st"
  show "originals env d pending st'"
  proof (rule originalsI)
    fix j t as
    assume "(j, t, as) \<in> set (labelsL (body st')) \<union> set (labelsL (detached st'))"
    with assms(1) have "(j, t, as) \<in> set (labelsL (body st)) \<union> set (labelsL (detached st))"
      by blast
    from originalsD [OF o this]
    show "\<exists>as0. (j, t, as0) \<in> set (labelsL d) \<and> (as = as0 \<or> j \<notin> set pending \<and> kept env as0 as)" .
  qed
next
  assume t: "treated env d pending st"
  show "treated env d pending st'"
  proof (rule treatedI)
    fix j as
    assume "(j, js ''img'', as) \<in> set (labelsL (body st'))" and p: "j \<notin> set pending"
    with assms(2) have "(j, js ''img'', as) \<in> set (labelsL (body st))" by blast
    from treatedD [OF t this p]
    show "\<exists>as0. (j, js ''img'', as0) \<in> set (labelsL d) \<and> kept env as0 as" .
  qed
qed
lemma inv_deleteNode:
  assumes o: "originals env d (i # pending) st" and t: "treated env d (i # pending) st"
  shows "originals env d pending (deleteNode i st)" and "treated env d pending (deleteNode i st)"
proof -
  show "originals env d pending (deleteNode i st)"
  proof (rule originalsI)
    fix j t as
    assume "(j, t, as) \<in> set (labelsL (body (deleteNode i st))) \<union>
        set (labelsL (detached (deleteNode i st)))"
    with deleteNode_labels(1) [of i st]
    have "(j, t, as) \<in> set (labelsL (body st)) \<union> set (labelsL (detached st))" by auto
    from originalsD [OF o this]
    show "\<exists>as0. (j, t, as0) \<in> set (labelsL d) \<and> (as = as0 \<or> j \<notin> set pending \<and> kept env as0 as)"
      by auto
  qed
  show "treated env d pending (deleteNode i st)"
  proof (rule treatedI)
    fix j as
    assume "(j, js ''img'', as) \<in> set (labelsL (body (deleteNode i st)))" and p: "j \<notin> set pending"
    with deleteNode_labels(2) [of i st]
    have b: "(j, js ''img'', as) \<in> set (labelsL (body st))" and "j \<noteq> i" by auto
    with p have "j \<notin> set (i # pending)" by simp
    from treatedD [OF t b this]
    show "\<exists>as0. (j, js ''img'', as0) \<in> set (labelsL d) \<and> kept env as0 as" .
  qed
qed

lemma inv_update:
  assumes wf: "wellFormed d" and o: "originals env d (i # pending) st"
    and t: "treated env d (i # pending) st" and i: "i \<notin> set pending"
    and a: "(i, js ''img'', as) \<in> set (labelsL d)" and c: "imgCondition env as"
    and m: "getMediaUrl (mediaExec env) (md5hex env) (srcOf env as) = Inr (Some newSrc)"
    and b': "body st' = updateL i (rewriteImg newSrc) (body st)"
    and d': "detached st' = updateL i (rewriteImg newSrc) (detached st)"
  shows "originals env d pending st'" and "treated env d pending st'"
proof -
  have k: "kept env as (rewriteImg newSrc as)"
    using c m by (auto simp: kept_def)
  have own: "as' = as \<and> t' = js ''img''"
    if "(i, t', as') \<in> set (labelsL (body st)) \<union> set (labelsL (detached st))" for t' as'
  proof -
    from originalsD [OF o that] obtain as0 where "(i, t', as0) \<in> set (labelsL d)" "as' = as0"
      by auto
    with wellFormed_unique [OF wf a, of t' as0] show ?thesis by simp
  qed
  have pre: "\<exists>b. (j, t', b) \<in> set (labelsL ns) \<and> as' = (if j = i then rewriteImg newSrc b else b)"
    if "(j, t', as') \<in> set (labelsL (updateL i (rewriteImg newSrc) ns))" for j t' as' ns
    using that by (auto simp: update_labels relabel_def)
  show "originals env d pending st'"
  proof (rule originalsI)
    fix j t' as'
    assume "(j, t', as') \<in> set (labelsL (body st')) \<union> set (labelsL (detached st'))"
    with pre [of j t' as' "body st"] pre [of j t' as' "detached st"] b' d'
    obtain b where b: "(j, t', b) \<in> set (labelsL (body st)) \<union> set (labelsL (detached st))"
      and e: "as' = (if j = i then rewriteImg newSrc b else b)"
      by auto
    show "\<exists>as0. (j, t', as0) \<in> set (labelsL d) \<and>
        (as' = as0 \<or> j \<notin> set pending \<and> kept env as0 as')"
    proof (cases "j = i")
      case True
      with own [of t' b] b have "b = as" "t' = js ''img''" by simp_all
      with True e a k i show ?thesis by auto
    next
      case False
      with originalsD [OF o b] e show ?thesis by auto
    qed
  qed
  show "treated env d pending st'"
  proof (rule treatedI)
    fix j as'
    assume "(j, js ''img'', as') \<in> set (labelsL (body st'))" and p: "j \<notin> set pending"
    with pre [of j "js ''img''" as' "body st"] b'
    obtain b where b: "(j, js ''img'', b) \<in> set (labelsL (body st))"
      and e: "as' = (if j = i then rewriteImg newSrc b else b)"
      by auto
    show "\<exists>as0. (j, js ''img'', as0) \<in> set (labelsL d) \<and> kept env as0 as'"
    proof (cases "j = i")
      case True
      with own [of "js ''img''" b] b have "b = as" by simp
      with True e a k show ?thesis by auto
    next
      case False
      with p have "j \<notin> set (i # pending)" by simp
      from treatedD [OF t b this] e False show ?thesis by simp
    qed
  qed
qed

lemma inv_rewriteSrc:
  assumes wf: "wellFormed d" and o: "originals env d (i # pending) st"
    and t: "treated env d (i # pending) st" and i: "i \<notin> set pending"
    and a: "(i, js ''img'', as) \<in> set (labelsL d)" and c: "imgCondition env as"
    and r: "rewriteSrc env i as st = Inr st'"
  shows "originals env d pending st'" and "treated env d pending st'"
proof -
  consider newSrc where "getMediaUrl (mediaExec env) (md5hex env) (srcOf env as) = Inr (Some newSrc)"
      "body st' = updateL i (rewriteImg newSrc) (body st)"
      "detached st' = updateL i (rewriteImg newSrc) (detached st)"
    | "st' = deleteNode i st"
    using r by (auto simp: rewriteSrc_def Let_def split: sum.splits option.splits)
  then have "originals env d pending st' \<and> treated env d pending st'"
  proof cases
    case 1
    from inv_update [OF wf o t i a c 1] show ?thesis by simp
  next
    case 2
    with inv_deleteNode [OF o t] show ?thesis by simp
  qed
  then show "originals env d pending st'" and "treated env d pending st'" by simp_all
qed

lemma treat_img_cases:
  assumes r: "treat_img env i st = Inr st'" and l: "lookup st i = Some (Element j t as cs)"
  shows "\<not> imgCondition env as \<and> st' = deleteNode i st \<or>
         imgCondition env as \<and>
         (\<exists>st1 l. (st1 = st \<or> st1 = replaceChild i l st \<or> st1 = deleteNode i st) \<and>
                  rewriteSrc env i as st1 = Inr st')"
proof (cases "imgCondition env as")
  case False
  with r l show ?thesis by (simp add: treat_img_def)
next
  case True
  show ?thesis
  proof (cases "parentNode st i")
    case NoParent
    with r l True show ?thesis by (simp add: treat_img_def)
  next
    case BodyParent
    with r l True have "rewriteSrc env i as st = Inr st'" by (simp add: treat_img_def)
    with True show ?thesis by blast
  next
    case (ElementParent p)
    show ?thesis
    proof (cases p)
      case (Text s)
      with r l True ElementParent have "rewriteSrc env i as st = Inr st'"
        by (simp add: treat_img_def)
      with True show ?thesis by blast
    next
      case (Element k lt las lcs)
      show ?thesis
      proof (cases "lt = js ''a''")
        case False
        with r l True ElementParent Element have "rewriteSrc env i as st = Inr st'"
          by (simp add: treat_img_def)
        with True show ?thesis by blast
      next
        case a: True
        show ?thesis
        proof (cases "keepLink env las")
          case (Inl e)
          with r l True ElementParent Element a show ?thesis by (simp add: treat_img_def)
        next
          case (Inr keep)
          with r l True ElementParent Element a
          have "rewriteSrc env i as
              (if keep then st else if parentNode st k \<noteq> NoParent then replaceChild i k st
               else deleteNode i st) = Inr st'"
            by (simp add: treat_img_def split: if_splits)
          with True show ?thesis by (cases keep; cases "parentNode st k \<noteq> NoParent") auto
        qed
      qed
    qed
  qed
qed

lemma inv_treat_img:
  assumes wf: "wellFormed d" and o: "originals env d (i # pending) st"
    and t: "treated env d (i # pending) st" and i: "i \<notin> set pending"
    and a: "(i, js ''img'', as0) \<in> set (labelsL d)"
    and r: "treat_img env i st = Inr st'"
  shows "originals env d pending st' \<and> treated env d pending st'"
proof (cases "lookup st i")
  case None
  with r have st': "st' = st" by (simp add: treat_img_def)
  have n: "(i, t, as) \<notin> set (labelsL (body st)) \<union> set (labelsL (detached st))" for t as
    using None by (force simp: lookup_def findL_None)
  have "originals env d pending st"
  proof (rule originalsI)
    fix j t as
    assume m: "(j, t, as) \<in> set (labelsL (body st)) \<union> set (labelsL (detached st))"
    with n have "j \<noteq> i" by auto
    with originalsD [OF o m]
    show "\<exists>as0. (j, t, as0) \<in> set (labelsL d) \<and> (as = as0 \<or> j \<notin> set pending \<and> kept env as0 as)"
      by auto
  qed
  moreover have "treated env d pending st"
  proof (rule treatedI)
    fix j as
    assume m: "(j, js ''img'', as) \<in> set (labelsL (body st))" and p: "j \<notin> set pending"
    with n have "j \<noteq> i" by auto
    with p have "j \<notin> set (i # pending)" by simp
    from treatedD [OF t m this]
    show "\<exists>as0. (j, js ''img'', as0) \<in> set (labelsL d) \<and> kept env as0 as" .
  qed
  ultimately show ?thesis by (simp add: st')
next
  case (Some n)
  from lookup_Some [OF Some] obtain tg as cs where n: "n = Element i tg as cs"
    and s: "(i, tg, as) \<in> set (labelsL (body st)) \<union> set (labelsL (detached st))" by auto
  from originalsD [OF o s] obtain a1 where "(i, tg, a1) \<in> set (labelsL d)" "as = a1" by auto
  with wellFormed_unique [OF wf a, of tg a1] have as: "as = as0" by simp
  have sub: "originals env d (i # pending) st1 \<and> treated env d (i # pending) st1"
    if "st1 = st \<or> st1 = replaceChild i l st \<or> st1 = deleteNode i st" for st1 l
  proof -
    have "set (labelsL (body st1)) \<union> set (labelsL (detached st1)) \<subseteq>
        set (labelsL (body st)) \<union> set (labelsL (detached st))"
      and "set (labelsL (body st1)) \<subseteq> set (labelsL (body st))"
      using that replaceChild_labels [of i l st] deleteNode_labels [of i st] by auto
    from inv_subset [OF this] o t show ?thesis by simp
  qed
  from treat_img_cases [OF r Some [unfolded n]]
  consider "\<not> imgCondition env as" "st' = deleteNode i st"
    | st1 l where "imgCondition env as"
        "st1 = st \<or> st1 = replaceChild i l st \<or> st1 = deleteNode i st"
        "rewriteSrc env i as st1 = Inr st'"
    by blast
  then show ?thesis
  proof cases
    case 1
    with inv_deleteNode [OF o t] show ?thesis by simp
  next
    case 2
    from 2(1) have c: "imgCondition env as0" by (simp add: as)
    from sub [OF 2(2)] have "originals env d (i # pending) st1" "treated env d (i # pending) st1"
      by simp_all
    from inv_rewriteSrc [OF wf this i a c] 2(3) show ?thesis by (simp add: as)
  qed
qed

lemma inv_treatMedia_loop:
  assumes wf: "wellFormed d"
  shows "treatMedia_loop env pending st = Inr st' \<Longrightarrow> distinct pending \<Longrightarrow>
    \<forall>i \<in> set pending. \<exists>as0. (i, js ''img'', as0) \<in> set (labelsL d) \<Longrightarrow>
    originals env d pending st \<Longrightarrow> treated env d pending st \<Longrightarrow>
    originals env d [] st' \<and> treated env d [] st'"
proof (induction pending arbitrary: st)
  case Nil
  then show ?case by simp
next
  case (Cons i pending)
  from Cons.prems(1) obtain st1 where 1: "treat_img env i st = Inr st1"
    and 2: "treatMedia_loop env pending st1 = Inr st'"
    by (auto split: sum.splits)
  from Cons.prems(3) obtain as0 where a: "(i, js ''img'', as0) \<in> set (labelsL d)" by auto
  from Cons.prems(2) have i: "i \<notin> set pending" and dp: "distinct pending" by simp_all
  from inv_treat_img [OF wf Cons.prems(4,5) i a 1]
  have "originals env d pending st1" "treated env d pending st1" by simp_all
  from Cons.IH [OF 2 dp _ this] Cons.prems(3) show ?case by simp
qed

lemma idsOf_member: "i \<in> set (idsOf P ns) \<longleftrightarrow> (\<exists>t as. (i, t, as) \<in> set (labelsL ns) \<and> P t as)"
proof
  assume "i \<in> set (idsOf P ns)"
  then show "\<exists>t as. (i, t, as) \<in> set (labelsL ns) \<and> P t as"
    by (auto simp: idsOf_def) blast
next
  assume "\<exists>t as. (i, t, as) \<in> set (labelsL ns) \<and> P t as"
  then obtain t as where "(i, t, as) \<in> set (labelsL ns)" "P t as" by auto
  then have "(i, t, as) \<in> set (filter (\<lambda>(i, t, as). P t as) (labelsL ns))" by simp
  then have "fst (i, t, as) \<in> fst ` set (filter (\<lambda>(i, t, as). P t as) (labelsL ns))"
    by (rule imageI)
  then show "i \<in> set (idsOf P ns)" by (simp add: idsOf_def)
qed

lemma idsOf_distinct: "wellFormed ns \<Longrightarrow> distinct (idsOf P ns)"
  by (simp add: idsOf_def wellFormed_def distinct_map_filter)

text \<open>When the loop is through, every image in the document is an image of the section,
  still the same object, that passed the test and has its source rewritten.\<close>

lemma treatMedia_kept:
  assumes wf: "wellFormed d" and r: "treatMediaElementsForSection env queue d = Inr st"
    and m: "(i, js ''img'', as) \<in> set (labelsL (body st))"
  shows "\<exists>as0. (i, js ''img'', as0) \<in> set (labelsL d) \<and> kept env as0 as"
proof -
  let ?st0 = "\<lparr>body = d, detached = [], imgSrcCache = [], downloadFileQueue = queue\<rparr>"
  have o: "originals env d (idsOf (isTag (js ''img'')) d) ?st0"
    by (rule originalsI) auto
  have t: "treated env d (idsOf (isTag (js ''img'')) d) ?st0"
    by (rule treatedI) (auto simp: idsOf_member isTag_def)
  have p: "\<forall>i \<in> set (idsOf (isTag (js ''img'')) d). \<exists>as0. (i, js ''img'', as0) \<in> set (labelsL d)"
    by (auto simp: idsOf_member isTag_def)
  from inv_treatMedia_loop [OF wf r [unfolded treatMediaElementsForSection_def]
      idsOf_distinct [OF wf] p o t]
  have "treated env d [] st" by simp
  from treatedD [OF this m] show ?thesis by simp
qed
subsection \<open>Attributes\<close>

lemma getAttribute_setAttribute:
  "getAttribute (setAttribute k v as) k' = (if k' = k then Some v else getAttribute as k')"
  by (induction as) (auto simp: getAttribute_def)

lemma getAttribute_removeAttribute:
  "getAttribute (removeAttribute k as) k' = (if k' = k then None else getAttribute as k')"
  by (induction as) (auto simp: getAttribute_def removeAttribute_def)

lemma setAttribute_same: "getAttribute as k = Some v \<Longrightarrow> setAttribute k v as = as"
  by (induction as) (auto simp: getAttribute_def split: if_splits)

lemma removeAttribute_absent: "getAttribute as k = None \<Longrightarrow> removeAttribute k as = as"
  by (induction as) (auto simp: getAttribute_def removeAttribute_def split: if_splits)

lemma getAttribute_rewriteImg:
  "getAttribute (rewriteImg newSrc as) k =
     (if k = js ''srcset'' \<or> k = js ''resource'' then None
      else if k = js ''src'' then Some newSrc else getAttribute as k)"
  by (simp add: rewriteImg_def getAttribute_removeAttribute getAttribute_setAttribute js_def)

lemma isMathImg_rewriteImg: "isMathImg (rewriteImg newSrc as) = isMathImg as"
  by (simp add: isMathImg_def getAttribute_rewriteImg js_def)

lemma rewriteImg_same:
  "getAttribute as (js ''src'') = Some s \<Longrightarrow> getAttribute as (js ''resource'') = None \<Longrightarrow>
   getAttribute as (js ''srcset'') = None \<Longrightarrow> rewriteImg s as = as"
  by (simp add: rewriteImg_def setAttribute_same removeAttribute_absent)

lemma getAttribute_styleUpdate:
  "k \<noteq> js ''style'' \<Longrightarrow> getAttribute (styleUpdate env as) k = getAttribute as k"
  by (simp add: styleUpdate_def getAttribute_removeAttribute getAttribute_setAttribute
      split: option.splits)

lemma styleUpdate_idem:
  assumes "\<And>s. styleWithoutDisplay env (styleWithoutDisplay env s) = styleWithoutDisplay env s"
  shows "styleUpdate env (styleUpdate env as) = styleUpdate env as"
proof (cases "styleWithoutDisplay env (getAttribute as (js ''style''))")
  case None
  with assms [of "getAttribute as (js ''style'')"] have "styleWithoutDisplay env None = None"
    by simp
  with None show ?thesis
    by (simp add: styleUpdate_def getAttribute_removeAttribute removeAttribute_absent)
next
  case (Some v)
  with assms [of "getAttribute as (js ''style'')"]
  have "styleWithoutDisplay env (Some v) = Some v" by simp
  with Some show ?thesis
    by (simp add: styleUpdate_def getAttribute_setAttribute setAttribute_same)
qed

subsection \<open>What the deleting loops leave\<close>

lemma idsOf_empty: "idsOf P ns = [] \<longleftrightarrow> (\<forall>(i, t, as) \<in> set (labelsL ns). \<not> P t as)"
  using idsOf_member [of _ P ns] by (metis (mono_tags, lifting) case_prodD case_prodI2
      empty_iff empty_set last_in_set)

lemma deleteIf_labels: "set (labelsL (deleteIf cond d i)) \<subseteq> set (labelsL d)"
  using removeL_set [of i d] by (auto simp: deleteIf_def split: option.splits)

lemma deleteIf_always:
  "set (labelsL (deleteIf always d i)) \<subseteq> {x \<in> set (labelsL d). fst x \<noteq> i}"
proof (cases "findL i d")
  case None
  then have "deleteIf always d i = d" by (simp add: deleteIf_def)
  moreover have "i \<notin> fst ` set (labelsL d)" using None by (simp add: findL_None)
  ultimately show ?thesis by (auto simp: image_iff)
next
  case (Some n)
  then show ?thesis
    using removeL_set [of i d] remove_absent(2) [of i d]
    by (auto simp: deleteIf_def always_def image_iff)
qed

lemma foldl_deleteIf_labels: "set (labelsL (foldl (deleteIf cond) d pending)) \<subseteq> set (labelsL d)"
proof (induction pending arbitrary: d)
  case (Cons i pending)
  from Cons [of "deleteIf cond d i"] deleteIf_labels [of cond d i] show ?case by auto
qed simp

lemma foldl_deleteIf_always:
  "set (labelsL (foldl (deleteIf always) d pending)) \<subseteq>
     {x \<in> set (labelsL d). fst x \<notin> set pending}"
proof (induction pending arbitrary: d)
  case (Cons i pending)
  from Cons [of "deleteIf always d i"] deleteIf_always [of d i] show ?case by auto
qed simp

lemma deleteLoop_labels: "set (labelsL (deleteLoop P cond d)) \<subseteq> set (labelsL d)"
  unfolding deleteLoop_def by (rule foldl_deleteIf_labels)

text \<open>The loop that deletes every element it visits leaves no element that matched.\<close>

lemma deleteLoop_always: "idsOf P (deleteLoop P always d) = []"
proof -
  have "\<not> P t as" if "(i, t, as) \<in> set (labelsL (deleteLoop P always d))" for i t as
  proof
    assume "P t as"
    from that foldl_deleteIf_always [of d "idsOf P d"]
    have "(i, t, as) \<in> set (labelsL d)" "i \<notin> set (idsOf P d)"
      by (auto simp: deleteLoop_def)
    with \<open>P t as\<close> show False by (auto simp: idsOf_member)
  qed
  then show ?thesis by (auto simp: idsOf_empty)
qed

lemma deleteById_labels: "set (labelsL (deleteById d ident)) \<subseteq> set (labelsL d)"
  using removeL_set [of _ d] by (auto simp: deleteById_def split: list.splits)

lemma foldl_labels:
  "(\<And>d x. set (labelsL (f d x)) \<subseteq> set (labelsL d)) \<Longrightarrow>
   set (labelsL (foldl f d xs)) \<subseteq> set (labelsL d)"
proof (induction xs arbitrary: d)
  case (Cons x xs)
  from Cons.IH [of "f d x"] Cons.prems show ?case by fastforce
qed simp

lemma foldl_updateL_labels:
  assumes "\<And>as. g (g as) = g as"
  shows "labelsL (foldl (\<lambda>d' i. updateL i g d') d pending) =
     map (\<lambda>(j, t, as). (j, t, if j \<in> set pending then g as else as)) (labelsL d)"
proof (induction pending arbitrary: d)
  case (Cons i pending)
  show ?case
    by (simp add: Cons [of "updateL i g d"] update_labels relabel_def assms case_prod_unfold)
qed (simp add: case_prod_unfold)

lemma displayLoop_labels:
  assumes "\<And>s. styleWithoutDisplay env (styleWithoutDisplay env s) = styleWithoutDisplay env s"
  shows "labelsL (displayLoop env d classname) =
     map (\<lambda>(j, t, as). (j, t, if j \<in> set (idsOf (hasClass classname) d)
                              then styleUpdate env as else as)) (labelsL d)"
  unfolding displayLoop_def by (rule foldl_updateL_labels) (rule styleUpdate_idem [OF assms])

lemma displayLoop_tags:
  "(fst \<circ> snd) ` set (labelsL (foldl (\<lambda>d' i. updateL i g d') d pending)) =
   (fst \<circ> snd) ` set (labelsL d)"
proof (induction pending arbitrary: d)
  case (Cons i pending)
  have "(fst \<circ> snd) ` set (labelsL (updateL i g d)) = (fst \<circ> snd) ` set (labelsL d)"
    by (force simp: update_labels relabel_def image_iff)
  with Cons [of "updateL i g d"] show ?case by simp
qed simp

text \<open>When configuration is \<open>nopic\<close>, no \<open>map\<close> element is left.\<close>

lemma applyOtherTreatments_no_map:
  assumes "nopic env" and "(i, t, as) \<in> set (labelsL (applyOtherTreatments env d))"
  shows "t \<noteq> js ''map''"
proof -
  let ?d1 = "deleteLoop (isTag (js ''map'')) always d"
  let ?d2 = "foldl deleteById ?d1 idBlackList"
  let ?d3 = "foldl (\<lambda>d' classname. deleteLoop (hasClass classname) always d') ?d2 cssClassBlackList"
  let ?d4 = "foldl (\<lambda>d' classname. deleteLoop (hasClass classname) noLink d') ?d3
      cssClassBlackListIfNoLink"
  have 5: "t \<in> (fst \<circ> snd) ` set (labelsL ?d4)"
  proof -
    from assms have "(i, t, as) \<in> set (labelsL (displayLoop env ?d4 (js ''thumb'')))"
      by (simp add: applyOtherTreatments_def cssClassDisplayList_def Let_def)
    then have "t \<in> (fst \<circ> snd) ` set (labelsL (displayLoop env ?d4 (js ''thumb'')))"
      by force
    then show ?thesis unfolding displayLoop_def displayLoop_tags .
  qed
  have "set (labelsL ?d4) \<subseteq> set (labelsL ?d3)"
    by (rule foldl_labels) (rule deleteLoop_labels)
  moreover have "set (labelsL ?d3) \<subseteq> set (labelsL ?d2)"
    by (rule foldl_labels) (rule deleteLoop_labels)
  moreover have "set (labelsL ?d2) \<subseteq> set (labelsL ?d1)"
    by (rule foldl_labels) (rule deleteById_labels)
  ultimately have "t \<in> (fst \<circ> snd) ` set (labelsL ?d1)" using 5 by auto
  then obtain j bs where "(j, t, bs) \<in> set (labelsL ?d1)" by force
  with deleteLoop_always [of "isTag (js ''map'')" d] show ?thesis
    by (auto simp: idsOf_empty isTag_def)
qed
subsection \<open>Images and maps under nopic\<close>

text \<open>The rule for the link around an image, in a turn of the loop.\<close>

lemma treat_img_link:
  "lookup st i = Some (Element i t as cs) \<Longrightarrow> imgCondition env as \<Longrightarrow>
   parentNode st i = ElementParent (Element l (js ''a'') las lcs) \<Longrightarrow>
   keepLink env las = Inr keep \<Longrightarrow>
   treat_img env i st =
     rewriteSrc env i as
       (if keep then st
        else if parentNode st l \<noteq> NoParent then replaceChild i l st
        else deleteNode i st)"
  by (simp add: treat_img_def)

lemma treat_img_body:
  "lookup st i = Some (Element i t as cs) \<Longrightarrow> imgCondition env as \<Longrightarrow>
   parentNode st i = BodyParent \<Longrightarrow> treat_img env i st = rewriteSrc env i as st"
  by (simp add: treat_img_def)

lemma treat_img_delete:
  "lookup st i = Some (Element i t as cs) \<Longrightarrow> \<not> imgCondition env as \<Longrightarrow>
   treat_img env i st = Inr (deleteNode i st)"
  by (simp add: treat_img_def)

text \<open>
  An environment for the examples: \<open>nopic\<close> is set, no article is mirrored, a relative
  href is its own path, a URL without a protocol is completed with that of the wiki, and
  \<open>mediaRegex\<close> matches the URLs of the formula images \<open>mathSrc\<close> and \<open>mathSrc2\<close> with the groups shown.
\<close>

definition mathSrc :: jsstring where
  "mathSrc = js ''https://wikimedia.org/api/rest_v1/media/math/render/svg/e88a''"

definition mathSrc2 :: jsstring where
  "mathSrc2 = js ''https://wikimedia.org/api/rest_v1/media/math/render/svg/f00d''"

definition mathEnv :: rewriter_env where
  "mathEnv =
     \<lparr>nopic = True, webUrlPath = js ''/wiki/'', parsePathname = (\<lambda>href. Inr (Some href)),
      articleList = False, namespaces = Map.empty, articleIds = (\<lambda>ident. False),
      getFullUrl = (\<lambda>u. if contains (js ''://'') u then u else js ''http://en.wikipedia.org/'' @ u),
      mediaExec = (\<lambda>u. if u = mathSrc
                         then Some \<lparr>p2 = js ''svg'', p4 = [], p5 = js ''e88a'', p6 = [], p7 = []\<rparr>
                         else if u = mathSrc2
                         then Some \<lparr>p2 = js ''svg'', p4 = [], p5 = js ''f00d'', p6 = [], p7 = []\<rparr>
                         else None),
      md5hex = (\<lambda>b. []),
      urlEnv = \<lparr>queryOf = (\<lambda>href key. QAbsent), numberToString = (\<lambda>r. [])\<rparr>,
      styleWithoutDisplay = (\<lambda>style. style)\<rparr>"

definition mathAttrs2 :: attrs where
  "mathAttrs2 = [(js ''typeof'', js ''mw:Extension/math''), (js ''src'', mathSrc2)]"

definition mathAttrs :: attrs where
  "mathAttrs =
     [(js ''class'', js ''mwe-math-fallback-image-inline''), (js ''src'', mathSrc),
      (js ''srcset'', js ''e88a-2x.svg 2x'')]"

definition filePathImg :: node where
  "filePathImg =
     Element 2 (js ''img'')
       [(js ''class'', js ''mwe-math-fallback-image-inline''),
        (js ''src'', js ''./Special:FilePath/E.svg'')] []"

definition plainAttrs :: attrs where
  "plainAttrs = [(js ''src'', js ''http://host/a/b.png'')]"

lemma mathEnv_fields:
  "nopic mathEnv" "webUrlPath mathEnv = js ''/wiki/''" "parsePathname mathEnv h = Inr (Some h)"
  "\<not> articleList mathEnv" "namespaces mathEnv = Map.empty" "\<not> articleIds mathEnv ident"
  "md5hex mathEnv = (\<lambda>b. [])" "mediaExec mathEnv mathSrc =
     Some \<lparr>p2 = js ''svg'', p4 = [], p5 = js ''e88a'', p6 = [], p7 = []\<rparr>"
  "mediaExec mathEnv mathSrc2 =
     Some \<lparr>p2 = js ''svg'', p4 = [], p5 = js ''f00d'', p6 = [], p7 = []\<rparr>"
  by (simp_all add: mathEnv_def mathSrc_def mathSrc2_def js_def)

lemma getFullUrl_mathSrc: "getFullUrl mathEnv mathSrc = mathSrc"
  by (simp add: mathEnv_def mathSrc_def contains_def js_def upt_rec)

lemma getMediaUrl_mathSrc:
  "getMediaUrl (mediaExec mathEnv) (md5hex mathEnv) mathSrc = Inr (Some (js ''m/e88a.svg''))"
proof -
  have "0x25 \<notin> set mathSrc" by (simp add: mathSrc_def js_def)
  then have d: "decodeURI mathSrc = Inr mathSrc"
    by (simp add: decodeURI_def Decode_no_percent)
  have f: "mediaFilename (\<lambda>b. [])
      \<lparr>p2 = js ''svg'', p4 = [], p5 = js ''e88a'', p6 = [], p7 = []\<rparr> = Inr (js ''e88a.svg'')"
  proof -
    have a: "ascii (js ''e88a.svg'')" by (simp add: ascii_def js_def)
    have "0x25 \<notin> set (js ''e88a.svg'')" by (simp add: js_def)
    then have m: "myDecodeURIComponent (js ''e88a.svg'') = Inr (js ''e88a.svg'')"
      by (simp add: myDecodeURIComponent_def decodeURIComponent_def try_catch_def
          Decode_no_percent)
    show ?thesis
      by (simp add: mediaFilename_def secondVariant_def or_else_def js_append length_js m
          shortenFilename_def getBinarySize_def byteLength_ascii [OF a])
  qed
  have e: "encodeURIComponent (js ''e88a.svg'') = Inr (js ''e88a.svg'')"
    by (simp add: encodeURIComponent_def uriUnreserved_def isHighSurrogate_def
        isLowSurrogate_def prepend_def js_def)
  have b: "filenameBaseOf \<lparr>p2 = js ''svg'', p4 = [], p5 = js ''e88a'', p6 = [], p7 = []\<rparr> \<noteq> []"
    by (simp add: filenameBaseOf_def or_else_def js_def)
  show ?thesis
    by (simp add: getMediaUrl_def getMediaBase_def d mathEnv_fields f e b mediaDirectory_def
        js_append)
qed

lemma isMathImg_class:
  "isMathImg ((js ''class'', js ''mwe-math-fallback-image-inline'') # as)"
  by (simp add: isMathImg_def getAttribute_def contains_def js_def upt_rec)

lemma mathAttrs_facts:
  "isMathImg mathAttrs" "usableSrc mathAttrs" "imgCondition mathEnv mathAttrs"
  "srcOf mathEnv mathAttrs = mathSrc"
  "rewriteImg (js ''m/e88a.svg'') mathAttrs =
     [(js ''class'', js ''mwe-math-fallback-image-inline''), (js ''src'', js ''m/e88a.svg'')]"
proof -
  show m: "isMathImg mathAttrs" unfolding mathAttrs_def by (rule isMathImg_class)
  show u: "usableSrc mathAttrs"
    by (simp add: usableSrc_def mathAttrs_def getAttribute_def mathSrc_def indexOf_is_0_def js_def)
  from m u show "imgCondition mathEnv mathAttrs" by (simp add: imgCondition_def)
  have "getAttribute mathAttrs (js ''src'') = Some mathSrc"
    by (simp add: mathAttrs_def getAttribute_def js_def)
  then show "srcOf mathEnv mathAttrs = mathSrc" by (simp add: srcOf_def getFullUrl_mathSrc)
  show "rewriteImg (js ''m/e88a.svg'') mathAttrs =
      [(js ''class'', js ''mwe-math-fallback-image-inline''), (js ''src'', js ''m/e88a.svg'')]"
    by (simp add: rewriteImg_def mathAttrs_def removeAttribute_def js_def)
qed

lemma plainAttrs_facts: "\<not> isMathImg plainAttrs" "\<not> imgCondition mathEnv plainAttrs"
proof -
  show "\<not> isMathImg plainAttrs"
    by (simp add: isMathImg_def plainAttrs_def getAttribute_def contains_def js_def upt_rec)
  then show "\<not> imgCondition mathEnv plainAttrs" by (simp add: imgCondition_def mathEnv_fields)
qed

lemma keepLink_File: "keepLink mathEnv [(js ''href'', js ''./File:E.svg'')] = Inr False"
proof -
  have "0x25 \<notin> set (js ''File:E.svg'')" by (simp add: js_def)
  then have dec: "myDecodeURIComponent (js ''File:E.svg'') = Inr (js ''File:E.svg'')"
    by (simp add: myDecodeURIComponent_def decodeURIComponent_def try_catch_def
        Decode_no_percent)
  have h: "getAttribute [(js ''href'', js ''./File:E.svg'')] (js ''href'') = Some (js ''./File:E.svg'')"
    by (simp add: getAttribute_def)
  have x: "extractTargetIdFromHref (js ''/wiki/'') (\<lambda>href. Inr (Some href)) (js ''./File:E.svg'') =
      Inr (Str (js ''File:E.svg''))"
    using dec by (simp add: extractTargetIdFromHref_def try_catch_def indexOf_is_0_def js_def)
  have m: "\<not> isMirrored mathEnv (js ''File:E.svg'')"
    by (simp add: isMirrored_def mathEnv_fields)
  show ?thesis
    using m by (simp add: keepLink_def h x mathEnv_def truthy_def)
qed

lemma getMediaUrl_mathSrc2:
  "getMediaUrl (mediaExec mathEnv) (md5hex mathEnv) mathSrc2 = Inr (Some (js ''m/f00d.svg''))"
proof -
  have "0x25 \<notin> set mathSrc2" by (simp add: mathSrc2_def js_def)
  then have d: "decodeURI mathSrc2 = Inr mathSrc2"
    by (simp add: decodeURI_def Decode_no_percent)
  have f: "mediaFilename (\<lambda>b. [])
      \<lparr>p2 = js ''svg'', p4 = [], p5 = js ''f00d'', p6 = [], p7 = []\<rparr> = Inr (js ''f00d.svg'')"
  proof -
    have a: "ascii (js ''f00d.svg'')" by (simp add: ascii_def js_def)
    have "0x25 \<notin> set (js ''f00d.svg'')" by (simp add: js_def)
    then have m: "myDecodeURIComponent (js ''f00d.svg'') = Inr (js ''f00d.svg'')"
      by (simp add: myDecodeURIComponent_def decodeURIComponent_def try_catch_def
          Decode_no_percent)
    show ?thesis
      by (simp add: mediaFilename_def secondVariant_def or_else_def js_append length_js m
          shortenFilename_def getBinarySize_def byteLength_ascii [OF a])
  qed
  have e: "encodeURIComponent (js ''f00d.svg'') = Inr (js ''f00d.svg'')"
    by (simp add: encodeURIComponent_def uriUnreserved_def isHighSurrogate_def
        isLowSurrogate_def prepend_def js_def)
  have b: "filenameBaseOf \<lparr>p2 = js ''svg'', p4 = [], p5 = js ''f00d'', p6 = [], p7 = []\<rparr> \<noteq> []"
    by (simp add: filenameBaseOf_def or_else_def js_def)
  show ?thesis
    by (simp add: getMediaUrl_def getMediaBase_def d mathEnv_fields f e b mediaDirectory_def
        js_append)
qed

lemma mathAttrs2_facts:
  "imgCondition mathEnv mathAttrs2" "srcOf mathEnv mathAttrs2 = mathSrc2"
  "rewriteImg (js ''m/f00d.svg'') mathAttrs2 =
     [(js ''typeof'', js ''mw:Extension/math''), (js ''src'', js ''m/f00d.svg'')]"
proof -
  have m: "isMathImg mathAttrs2"
    by (simp add: isMathImg_def mathAttrs2_def getAttribute_def js_def)
  have u: "usableSrc mathAttrs2"
    by (simp add: usableSrc_def mathAttrs2_def getAttribute_def mathSrc2_def indexOf_is_0_def
        js_def)
  from m u show "imgCondition mathEnv mathAttrs2" by (simp add: imgCondition_def)
  have "getAttribute mathAttrs2 (js ''src'') = Some mathSrc2"
    by (simp add: mathAttrs2_def getAttribute_def js_def)
  moreover have "getFullUrl mathEnv mathSrc2 = mathSrc2"
    by (simp add: mathEnv_def mathSrc2_def contains_def js_def upt_rec)
  ultimately show "srcOf mathEnv mathAttrs2 = mathSrc2" by (simp add: srcOf_def)
  show "rewriteImg (js ''m/f00d.svg'') mathAttrs2 =
      [(js ''typeof'', js ''mw:Extension/math''), (js ''src'', js ''m/f00d.svg'')]"
    by (simp add: rewriteImg_def mathAttrs2_def removeAttribute_def js_def)
qed

lemma mathSrc_neq: "mathSrc2 \<noteq> mathSrc"
  by (simp add: mathSrc_def mathSrc2_def js_def)

text \<open>The section of the examples: a formula image in a link to its file page, an image
  that is no formula, a map, and a second formula image.\<close>

definition nopicSection :: "node list" where
  "nopicSection =
     [Element 2 (js ''a'') [(js ''href'', js ''./File:E.svg'')]
        [Element 3 (js ''img'') mathAttrs []],
      Element 4 (js ''img'') plainAttrs [],
      Element 5 (js ''map'') [] [Element 6 (js ''area'') [] []],
      Element 7 (js ''img'') mathAttrs2 []]"

definition keptImg :: node where
  "keptImg =
     Element 3 (js ''img'')
       [(js ''class'', js ''mwe-math-fallback-image-inline''), (js ''src'', js ''m/e88a.svg'')] []"

definition keptImg2 :: node where
  "keptImg2 =
     Element 7 (js ''img'')
       [(js ''typeof'', js ''mw:Extension/math''), (js ''src'', js ''m/f00d.svg'')] []"

definition nopicResult :: media_state where
  "nopicResult =
     \<lparr>body = [keptImg, Element 5 (js ''map'') [] [Element 6 (js ''area'') [] []], keptImg2],
      detached = [Element 2 (js ''a'') [(js ''href'', js ''./File:E.svg'')] [],
                  Element 4 (js ''img'') plainAttrs []],
      imgSrcCache = [mathSrc, mathSrc2], downloadFileQueue = [mathSrc, mathSrc2]\<rparr>"

lemmas forest_eval = lookup_def findL_def parentL_def parentNode_def deleteNode_def
  replaceChild_def inside_def idsOf_def isTag_def

lemma treatMedia_nopicSection:
  "treatMediaElementsForSection mathEnv [] nopicSection = Inr nopicResult"
proof -
  let ?map = "Element 5 (js ''map'') [] [Element 6 (js ''area'') [] []]"
  let ?a = "Element 2 (js ''a'') [(js ''href'', js ''./File:E.svg'')] []"
  let ?st0 = "\<lparr>body = nopicSection, detached = [], imgSrcCache = [], downloadFileQueue = []\<rparr>"
  let ?st1 = "\<lparr>body = [keptImg, Element 4 (js ''img'') plainAttrs [], ?map,
                        Element 7 (js ''img'') mathAttrs2 []],
                detached = [?a], imgSrcCache = [mathSrc], downloadFileQueue = [mathSrc]\<rparr>"
  let ?st2 = "\<lparr>body = [keptImg, ?map, Element 7 (js ''img'') mathAttrs2 []],
                detached = [?a, Element 4 (js ''img'') plainAttrs []],
                imgSrcCache = [mathSrc], downloadFileQueue = [mathSrc]\<rparr>"
  have ids: "idsOf (isTag (js ''img'')) nopicSection = [3, 4, 7]"
    by (simp add: nopicSection_def idsOf_def isTag_def js_def)
  have 1: "treat_img mathEnv 3 ?st0 = Inr ?st1"
  proof -
    have l: "lookup ?st0 3 = Some (Element 3 (js ''img'') mathAttrs [])"
      by (simp add: nopicSection_def forest_eval)
    have p: "parentNode ?st0 3 =
        ElementParent (Element 2 (js ''a'') [(js ''href'', js ''./File:E.svg'')]
          [Element 3 (js ''img'') mathAttrs []])"
      by (simp add: nopicSection_def forest_eval)
    have q: "parentNode ?st0 2 \<noteq> NoParent"
      by (simp add: nopicSection_def forest_eval)
    have r: "replaceChild 3 2 ?st0 =
        \<lparr>body = [Element 3 (js ''img'') mathAttrs [], Element 4 (js ''img'') plainAttrs [],
                  ?map, Element 7 (js ''img'') mathAttrs2 []],
          detached = [?a], imgSrcCache = [], downloadFileQueue = []\<rparr>"
      by (simp add: nopicSection_def forest_eval)
    show ?thesis
      unfolding treat_img_link [OF l mathAttrs_facts(3) p keepLink_File]
      by (simp add: q r rewriteSrc_def mathAttrs_facts getMediaUrl_mathSrc keptImg_def)
  qed
  have 2: "treat_img mathEnv 4 ?st1 = Inr ?st2"
  proof -
    have l: "lookup ?st1 4 = Some (Element 4 (js ''img'') plainAttrs [])"
      by (simp add: keptImg_def forest_eval)
    show ?thesis
      unfolding treat_img_delete [OF l plainAttrs_facts(2)]
      by (simp add: keptImg_def forest_eval)
  qed
  have 3: "treat_img mathEnv 7 ?st2 = Inr nopicResult"
  proof -
    have l: "lookup ?st2 7 = Some (Element 7 (js ''img'') mathAttrs2 [])"
      by (simp add: keptImg_def forest_eval)
    have p: "parentNode ?st2 7 = BodyParent"
      by (simp add: keptImg_def forest_eval)
    show ?thesis
      unfolding treat_img_body [OF l mathAttrs2_facts(1) p]
      by (simp add: rewriteSrc_def mathAttrs2_facts getMediaUrl_mathSrc2 mathSrc_neq
          keptImg_def keptImg2_def nopicResult_def)
  qed
  show ?thesis
    by (simp add: treatMediaElementsForSection_def ids 1 2 3)
qed

lemma rewriteUrls_nopicResult: "rewriteUrls mathEnv (body nopicResult) = body nopicResult"
  by (simp add: rewriteUrls_def rewriteUrl_at_def rewriteUrl_def findL_def getAttribute_def
      nopicResult_def keptImg_def keptImg2_def idsOf_def isTag_def js_def)

lemma applyOtherTreatments_nopicResult:
  "applyOtherTreatments mathEnv (body nopicResult) = [keptImg, keptImg2]"
proof -
  have np: "nopic mathEnv" by (rule mathEnv_fields)
  have t: "tokens (js ''mwe-math-fallback-image-inline'') = [js ''mwe-math-fallback-image-inline'']"
    by (simp add: js_def isAsciiSpace_def)
  have 1: "deleteLoop (isTag (js ''map'')) always (body nopicResult) = [keptImg, keptImg2]"
    by (simp add: deleteLoop_def deleteIf_def always_def nopicResult_def keptImg_def keptImg2_def
        forest_eval js_def)
  have i: "idsOf (hasId ident) [keptImg, keptImg2] = []" for ident
    by (simp add: idsOf_def hasId_def keptImg_def keptImg2_def getAttribute_def js_def)
  have c: "c \<noteq> js ''mwe-math-fallback-image-inline'' \<Longrightarrow>
      idsOf (hasClass c) [keptImg, keptImg2] = []" for c
    by (simp add: idsOf_def hasClass_def keptImg_def keptImg2_def getAttribute_def t)
       (simp add: js_def)
  have 2: "foldl deleteById [keptImg, keptImg2] idBlackList = [keptImg, keptImg2]"
    by (simp add: idBlackList_def deleteById_def i)
  have 3: "foldl (\<lambda>d' classname. deleteLoop (hasClass classname) always d') [keptImg, keptImg2]
      cssClassBlackList = [keptImg, keptImg2]"
    by (simp add: cssClassBlackList_def deleteLoop_def c js_def)
  have 4: "foldl (\<lambda>d' classname. deleteLoop (hasClass classname) noLink d') [keptImg, keptImg2]
      cssClassBlackListIfNoLink = [keptImg, keptImg2]"
    by (simp add: cssClassBlackListIfNoLink_def deleteLoop_def c js_def)
  have 5: "foldl (displayLoop mathEnv) [keptImg, keptImg2] cssClassDisplayList = [keptImg, keptImg2]"
    by (simp add: cssClassDisplayList_def displayLoop_def c js_def)
  show ?thesis
    by (simp add: applyOtherTreatments_def np 1 2 3 4 5 Let_def)
qed

lemma transformSection_nopicSection:
  "transformSection mathEnv nopicSection =
     Inr (js ''<img class=\"mwe-math-fallback-image-inline\" src=\"m/e88a.svg\"><img typeof=\"mw:Extension/math\" src=\"m/f00d.svg\">'')"
  by (simp add: transformSection_def transformDoc_def treatMedia_nopicSection
      rewriteUrls_nopicResult applyOtherTreatments_nopicResult)
     (simp add: innerHTML_def keptImg_def keptImg2_def voidElements_def escapeAttr_def js_def)

text \<open>
  Two formula images in one link. The first takes the place of the link. The second is
  still a child of the link, which now has no parent: it is taken out of the link, so it
  is not in the document, and its source is queued all the same.
\<close>

lemma treatMedia_two_in_link:
  "map_sum id (\<lambda>st. (body st, downloadFileQueue st))
     (treatMediaElementsForSection mathEnv []
        [Element 2 (js ''a'') [(js ''href'', js ''./File:E.svg'')]
           [Element 3 (js ''img'') mathAttrs [], Element 7 (js ''img'') mathAttrs2 []]]) =
     Inr ([keptImg], [mathSrc, mathSrc2])"
proof -
  let ?d = "[Element 2 (js ''a'') [(js ''href'', js ''./File:E.svg'')]
      [Element 3 (js ''img'') mathAttrs [], Element 7 (js ''img'') mathAttrs2 []]]"
  let ?a1 = "Element 2 (js ''a'') [(js ''href'', js ''./File:E.svg'')]
      [Element 7 (js ''img'') mathAttrs2 []]"
  let ?st0 = "\<lparr>body = ?d, detached = [], imgSrcCache = [], downloadFileQueue = []\<rparr>"
  let ?st1 = "\<lparr>body = [keptImg], detached = [?a1],
                imgSrcCache = [mathSrc], downloadFileQueue = [mathSrc]\<rparr>"
  have ids: "idsOf (isTag (js ''img'')) ?d = [3, 7]"
    by (simp add: idsOf_def isTag_def js_def)
  have 1: "treat_img mathEnv 3 ?st0 = Inr ?st1"
  proof -
    have l: "lookup ?st0 3 = Some (Element 3 (js ''img'') mathAttrs [])"
      by (simp add: forest_eval)
    have p: "parentNode ?st0 3 =
        ElementParent (Element 2 (js ''a'') [(js ''href'', js ''./File:E.svg'')]
          [Element 3 (js ''img'') mathAttrs [], Element 7 (js ''img'') mathAttrs2 []])"
      by (simp add: forest_eval)
    have q: "parentNode ?st0 2 \<noteq> NoParent"
      by (simp add: forest_eval)
    have r: "replaceChild 3 2 ?st0 =
        \<lparr>body = [Element 3 (js ''img'') mathAttrs []], detached = [?a1],
          imgSrcCache = [], downloadFileQueue = []\<rparr>"
      by (simp add: forest_eval)
    show ?thesis
      unfolding treat_img_link [OF l mathAttrs_facts(3) p keepLink_File]
      by (simp add: q r rewriteSrc_def mathAttrs_facts getMediaUrl_mathSrc keptImg_def)
  qed
  have 2: "treat_img mathEnv 7 ?st1 =
      Inr \<lparr>body = [keptImg],
           detached = [Element 2 (js ''a'') [(js ''href'', js ''./File:E.svg'')] [], keptImg2],
           imgSrcCache = [mathSrc, mathSrc2], downloadFileQueue = [mathSrc, mathSrc2]\<rparr>"
  proof -
    have l: "lookup ?st1 7 = Some (Element 7 (js ''img'') mathAttrs2 [])"
      by (simp add: keptImg_def forest_eval)
    have p: "parentNode ?st1 7 = ElementParent ?a1"
      by (simp add: keptImg_def forest_eval)
    have q: "parentNode ?st1 2 = NoParent"
      by (simp add: keptImg_def forest_eval)
    have r: "deleteNode 7 ?st1 =
        \<lparr>body = [keptImg],
          detached = [Element 2 (js ''a'') [(js ''href'', js ''./File:E.svg'')] [],
                      Element 7 (js ''img'') mathAttrs2 []],
          imgSrcCache = [mathSrc], downloadFileQueue = [mathSrc]\<rparr>"
      by (simp add: keptImg_def forest_eval)
    show ?thesis
      unfolding treat_img_link [OF l mathAttrs2_facts(1) p keepLink_File] q r
      by (simp add: rewriteSrc_def mathAttrs2_facts getMediaUrl_mathSrc2 mathSrc_neq
          keptImg_def keptImg2_def)
  qed
  show ?thesis
    by (simp add: treatMediaElementsForSection_def ids 1 2)
qed
subsection \<open>An image at the top of the section\<close>

lemma top_removeL: "list_ex (isElem i) ns \<Longrightarrow> i \<noteq> j \<Longrightarrow> list_ex (isElem i) (removeL j ns)"
proof (induction ns)
  case (Cons n ns)
  then show ?case by (cases n) auto
qed simp

lemma top_unwrapL: "list_ex (isElem i) ns \<Longrightarrow> i \<noteq> l \<Longrightarrow> list_ex (isElem i) (unwrapL l j ns)"
proof (induction ns)
  case (Cons n ns)
  then show ?case by (cases n) auto
qed simp

lemma top_updateL: "list_ex (isElem i) (updateL j g ns) = list_ex (isElem i) ns"
proof (induction ns)
  case (Cons n ns)
  then show ?case by (cases n) auto
qed simp

lemma top_label: "list_ex (isElem i) ns \<Longrightarrow> \<exists>t as. (i, t, as) \<in> set (labelsL ns)"
proof (induction ns)
  case (Cons n ns)
  then show ?case by (cases n) auto
qed simp

lemma top_deleteNode:
  "list_ex (isElem i) (body st) \<Longrightarrow> i \<noteq> j \<Longrightarrow> list_ex (isElem i) (body (deleteNode j st))"
  by (simp add: deleteNode_def top_removeL)

lemma parentNode_Element:
  assumes "parentNode st i = ElementParent p"
  shows "p \<in> set (elementsL (body st)) \<union> set (elementsL (detached st))"
proof -
  from assms have "parentL i (body st @ detached st) = Some p"
    by (auto simp: parentNode_def split: if_splits option.splits)
  from find_Some_set [OF this [unfolded parentL_def]] show ?thesis by simp
qed

lemma treat_img_steps:
  assumes r: "treat_img env j st = Inr st'" and l: "lookup st j = Some (Element k t as cs)"
  shows "st' = deleteNode j st \<or>
         rewriteSrc env j as st = Inr st' \<or>
         rewriteSrc env j as (deleteNode j st) = Inr st' \<or>
         (\<exists>l las lcs. Element l (js ''a'') las lcs \<in>
              set (elementsL (body st)) \<union> set (elementsL (detached st)) \<and>
            rewriteSrc env j as (replaceChild j l st) = Inr st')"
proof (cases "imgCondition env as")
  case False
  with r l show ?thesis by (simp add: treat_img_def)
next
  case True
  show ?thesis
  proof (cases "parentNode st j")
    case NoParent
    with r l True show ?thesis by (simp add: treat_img_def)
  next
    case BodyParent
    with r l True show ?thesis by (simp add: treat_img_def)
  next
    case (ElementParent p)
    note e = parentNode_Element [OF this]
    show ?thesis
    proof (cases p)
      case (Text s)
      with r l True ElementParent show ?thesis by (simp add: treat_img_def)
    next
      case (Element l lt las lcs)
      show ?thesis
      proof (cases "lt = js ''a''")
        case False
        with r l True ElementParent Element show ?thesis by (simp add: treat_img_def)
      next
        case a: True
        show ?thesis
        proof (cases "keepLink env las")
          case (Inl x)
          with r l True ElementParent Element a show ?thesis by (simp add: treat_img_def)
        next
          case (Inr keep)
          with r l True ElementParent Element a
          have "rewriteSrc env j as
              (if keep then st else if parentNode st l \<noteq> NoParent then replaceChild j l st
               else deleteNode j st) = Inr st'"
            by (simp add: treat_img_def split: if_splits)
          then consider "rewriteSrc env j as st = Inr st'"
            | "rewriteSrc env j as (replaceChild j l st) = Inr st'"
            | "rewriteSrc env j as (deleteNode j st) = Inr st'"
            by (cases keep; cases "parentNode st l \<noteq> NoParent") auto
          then show ?thesis
          proof cases
            case 2
            with e Element a show ?thesis by blast
          qed simp_all
        qed
      qed
    qed
  qed
qed

lemma top_rewriteSrc:
  "rewriteSrc env j as st = Inr st' \<Longrightarrow> list_ex (isElem i) (body st) \<Longrightarrow> i \<noteq> j \<Longrightarrow>
   list_ex (isElem i) (body st')"
  by (auto simp: rewriteSrc_def Let_def top_updateL top_deleteNode split: sum.splits option.splits)

lemma top_treat_img_other:
  assumes wf: "wellFormed d" and o: "originals env d pending st"
    and a: "(i, js ''img'', as0) \<in> set (labelsL d)"
    and top: "list_ex (isElem i) (body st)" and ij: "i \<noteq> j"
    and r: "treat_img env j st = Inr st'"
  shows "list_ex (isElem i) (body st')"
proof (cases "lookup st j")
  case None
  with r top show ?thesis by (simp add: treat_img_def)
next
  case (Some n)
  from lookup_Some [OF Some] obtain t as cs where n: "n = Element j t as cs" by auto
  from treat_img_steps [OF r Some [unfolded n]]
  consider "st' = deleteNode j st" | "rewriteSrc env j as st = Inr st'"
    | "rewriteSrc env j as (deleteNode j st) = Inr st'"
    | l las lcs where "Element l (js ''a'') las lcs \<in>
          set (elementsL (body st)) \<union> set (elementsL (detached st))"
        "rewriteSrc env j as (replaceChild j l st) = Inr st'"
    by blast
  then show ?thesis
  proof cases
    case 1
    with top ij show ?thesis by (simp add: top_deleteNode)
  next
    case 2
    from top_rewriteSrc [OF 2 top ij] show ?thesis .
  next
    case 3
    from top_rewriteSrc [OF 3 top_deleteNode [OF top ij] ij] show ?thesis .
  next
    case 4
    from 4(1) have "(l, js ''a'', las) \<in> set (labelsL (body st)) \<union> set (labelsL (detached st))"
      using element_label [of "Element l (js ''a'') las lcs"] by auto
    from originalsD [OF o this] obtain b where "(l, js ''a'', b) \<in> set (labelsL d)" by auto
    with wellFormed_unique [OF wf a, of "js ''a''" b] have "i \<noteq> l"
      by (auto simp: js_def)
    with top have "list_ex (isElem i) (body (replaceChild j l st))"
      by (simp add: replaceChild_def top_unwrapL)
    from top_rewriteSrc [OF 4(2) this ij] show ?thesis .
  qed
qed

lemma top_treat_img_own:
  assumes wf: "wellFormed d" and o: "originals env d (i # pending) st"
    and a: "(i, js ''img'', as0) \<in> set (labelsL d)"
    and top: "list_ex (isElem i) (body st)"
    and c: "imgCondition env as0"
    and m: "getMediaUrl (mediaExec env) (md5hex env) (srcOf env as0) = Inr (Some newSrc)"
    and r: "treat_img env i st = Inr st'"
  shows "list_ex (isElem i) (body st')"
proof -
  from top_label [OF top] have "i \<in> fst ` set (labelsL (body st @ detached st))" by force
  then obtain n where l: "lookup st i = Some n"
    by (cases "lookup st i") (auto simp: lookup_def findL_None)
  from lookup_Some [OF l] obtain t as cs where n: "n = Element i t as cs"
    and s: "(i, t, as) \<in> set (labelsL (body st)) \<union> set (labelsL (detached st))" by auto
  from originalsD [OF o s] obtain a1 where "(i, t, a1) \<in> set (labelsL d)" "as = a1" by auto
  with wellFormed_unique [OF wf a, of t a1] have as: "as = as0" by simp
  have p: "parentNode st i = BodyParent" using top by (simp add: parentNode_def)
  from r l n as c p have "rewriteSrc env i as0 st = Inr st'" by (simp add: treat_img_def)
  with m have "body st' = updateL i (rewriteImg newSrc) (body st)"
    by (auto simp: rewriteSrc_def Let_def)
  with top show ?thesis by (simp add: top_updateL)
qed

lemma top_treatMedia_loop:
  assumes wf: "wellFormed d" and a: "(i, js ''img'', as0) \<in> set (labelsL d)"
    and c: "imgCondition env as0"
    and m: "getMediaUrl (mediaExec env) (md5hex env) (srcOf env as0) = Inr (Some newSrc)"
  shows "treatMedia_loop env pending st = Inr st' \<Longrightarrow> distinct pending \<Longrightarrow>
    \<forall>j \<in> set pending. \<exists>b. (j, js ''img'', b) \<in> set (labelsL d) \<Longrightarrow>
    originals env d pending st \<Longrightarrow> treated env d pending st \<Longrightarrow>
    list_ex (isElem i) (body st) \<Longrightarrow> list_ex (isElem i) (body st')"
proof (induction pending arbitrary: st)
  case Nil
  then show ?case by simp
next
  case (Cons j pending)
  from Cons.prems(1) obtain st1 where 1: "treat_img env j st = Inr st1"
    and 2: "treatMedia_loop env pending st1 = Inr st'"
    by (auto split: sum.splits)
  from Cons.prems(3) obtain b where b: "(j, js ''img'', b) \<in> set (labelsL d)" by auto
  from Cons.prems(2) have j: "j \<notin> set pending" and dp: "distinct pending" by simp_all
  from inv_treat_img [OF wf Cons.prems(4,5) j b 1]
  have inv: "originals env d pending st1" "treated env d pending st1" by simp_all
  have "list_ex (isElem i) (body st1)"
  proof (cases "i = j")
    case True
    from top_treat_img_own [OF wf Cons.prems(4) [folded True] a Cons.prems(6) c m
        1 [folded True]]
    show ?thesis .
  next
    case False
    from top_treat_img_other [OF wf Cons.prems(4) a Cons.prems(6) False 1] show ?thesis .
  qed
  from Cons.IH [OF 2 dp _ inv this] Cons.prems(3) show ?case by simp
qed

text \<open>An image at the top of the section that passes the test and from whose source a
  local path is derived stays where it is, with its source rewritten.\<close>

lemma treatMedia_top_kept:
  assumes wf: "wellFormed d" and top: "Element i (js ''img'') as0 cs \<in> set d"
    and c: "imgCondition env as0"
    and m: "getMediaUrl (mediaExec env) (md5hex env) (srcOf env as0) = Inr (Some newSrc)"
    and r: "treatMediaElementsForSection env queue d = Inr st"
  shows "(i, js ''img'', rewriteImg newSrc as0) \<in> set (labelsL (body st))"
proof -
  let ?st0 = "\<lparr>body = d, detached = [], imgSrcCache = [], downloadFileQueue = queue\<rparr>"
  have t0: "list_ex (isElem i) (body ?st0)"
    using top by (auto simp: list_ex_iff intro: bexI [of _ "Element i (js ''img'') as0 cs"])
  have "Element i (js ''img'') as0 cs \<in> set (elementsL d)"
    using top by (induction d) auto
  from element_label [OF this] have a: "(i, js ''img'', as0) \<in> set (labelsL d)" by simp
  have o: "originals env d (idsOf (isTag (js ''img'')) d) ?st0"
    by (rule originalsI) auto
  have t: "treated env d (idsOf (isTag (js ''img'')) d) ?st0"
    by (rule treatedI) (auto simp: idsOf_member isTag_def)
  have p: "\<forall>i \<in> set (idsOf (isTag (js ''img'')) d). \<exists>as0. (i, js ''img'', as0) \<in> set (labelsL d)"
    by (auto simp: idsOf_member isTag_def)
  note r' = r [unfolded treatMediaElementsForSection_def]
  from top_treatMedia_loop [OF wf a c m r' idsOf_distinct [OF wf] p o t t0]
  obtain t' as' where "(i, t', as') \<in> set (labelsL (body st))"
    using top_label by blast
  moreover from inv_treatMedia_loop [OF wf r' idsOf_distinct [OF wf] p o t]
  have oo: "originals env d [] st" and tt: "treated env d [] st" by simp_all
  ultimately obtain b where "(i, t', b) \<in> set (labelsL d)"
    and x: "(i, t', as') \<in> set (labelsL (body st))"
    using originalsD [OF oo, of i t' as'] by auto
  with wellFormed_unique [OF wf a, of t' b] have t': "t' = js ''img''" by simp
  from treatedD [OF tt x [unfolded t']] obtain b' where "(i, js ''img'', b') \<in> set (labelsL d)"
    and k: "kept env b' as'" by auto
  with wellFormed_unique [OF wf a, of "js ''img''" b'] have "b' = as0" by simp
  with k m have "as' = rewriteImg newSrc as0" by (simp add: kept_def)
  with x t' show ?thesis by simp
qed



end
